theory Spec2Isabelle
  imports Complex_Main
begin

chapter \<open>NexoDigital front-end scripts: the embedding\<close>

text \<open>
  The repository holds two alternative page scripts. The responsive-navigation script
  (the unnamed source part) defines \<open>CONFIG\<close>, \<open>throttle\<close>, \<open>debounce\<close>,
  \<open>deviceCapabilities\<close>, the classes \<open>Navigation\<close> and \<open>ScrollAnimations\<close> and the
  object \<open>Utils\<close>; \<open>script.js\<close> defines its own \<open>CONFIG\<close>, the same two timing
  wrappers, another \<open>deviceCapabilities\<close> and another \<open>ScrollAnimations\<close>.
  Every definition below is a translation of one of these source functions; the host
  (timers, the clock, the DOM) is modelled only as far as the functions touch it.
\<close>

section \<open>CONFIG\<close>

definition animations_duration :: int where "animations_duration = 300"
definition animations_stagger :: int where "animations_stagger = 50"
definition throttleDelay :: int where "throttleDelay = 16"
definition debounceDelay :: int where "debounceDelay = 300"
definition breakpoints_mobile :: int where "breakpoints_mobile = 768"
definition breakpoints_tablet :: int where "breakpoints_tablet = 1024"

section \<open>Utils.easeInOutQuad\<close>

text \<open>
  \<^verbatim>\<open>easeInOutQuad(t, b, c, d) { t /= d / 2; if (t < 1) return c / 2 * t * t + b;
     t--; return -c / 2 * (t * (t - 2) - 1) + b; }\<close>
  over exact rational numbers. The two reassignments of \<open>t\<close> are the two \<open>let\<close>s.
  In HOL \<open>x / 0 = 0\<close>, where JavaScript yields an infinity or NaN: the model is the
  program only for \<open>d \<noteq> 0\<close>.
\<close>

definition easeInOutQuad :: "rat \<Rightarrow> rat \<Rightarrow> rat \<Rightarrow> rat \<Rightarrow> rat" where
  "easeInOutQuad t b c d =
     (let t1 = t / (d / 2) in
      if t1 < 1 then c / 2 * t1 * t1 + b
      else (let t2 = t1 - 1 in (- c) / 2 * (t2 * (t2 - 2) - 1) + b))"

section \<open>The host's timers\<close>

text \<open>
  \<open>setTimeout\<close> and \<open>clearTimeout\<close> over a queue of pending timers. A timer is its
  identifier, the time it is due and the arguments its callback closed over (the body of
  the callback is fixed by the wrapper that created it). Time is the host clock in
  milliseconds, the value \<open>Date.now()\<close> returns. A negative delay counts as zero.
\<close>

type_synonym 'a timer = "nat \<times> int \<times> 'a"

definition timer_id :: "'a timer \<Rightarrow> nat" where "timer_id tm = fst tm"
definition timer_due :: "'a timer \<Rightarrow> int" where "timer_due tm = fst (snd tm)"
definition timer_args :: "'a timer \<Rightarrow> 'a" where "timer_args tm = snd (snd tm)"

record 'a host =
  queue :: "'a timer list"
  next_id :: nat

definition host_init :: "'a host" where
  "host_init = \<lparr>queue = [], next_id = 1\<rparr>"

definition setTimeout :: "int \<Rightarrow> int \<Rightarrow> 'a \<Rightarrow> 'a host \<Rightarrow> nat \<times> 'a host" where
  "setTimeout now delay args h =
     (next_id h,
      h\<lparr>queue := queue h @ [(next_id h, now + max 0 delay, args)], next_id := next_id h + 1\<rparr>)"

definition clearTimeout :: "nat option \<Rightarrow> 'a host \<Rightarrow> 'a host" where
  "clearTimeout tid h =
     (case tid of
        None \<Rightarrow> h
      | Some i \<Rightarrow> h\<lparr>queue := filter (\<lambda>tm. timer_id tm \<noteq> i) (queue h)\<rparr>)"

text \<open>
  The timers that have come due at time \<open>now\<close>, in the order the host runs them
  (by due time; timers due together in the order they were set), and the queue without them.
\<close>

definition due_timers :: "int \<Rightarrow> 'a host \<Rightarrow> 'a timer list" where
  "due_timers now h = sort_key timer_due (filter (\<lambda>tm. timer_due tm \<le> now) (queue h))"

definition drop_due :: "int \<Rightarrow> 'a host \<Rightarrow> 'a host" where
  "drop_due now h = h\<lparr>queue := filter (\<lambda>tm. \<not> timer_due tm \<le> now) (queue h)\<rparr>"

section \<open>throttle\<close>

text \<open>
  The closure of \<open>throttle(func, delay)\<close>: its two variables \<open>timeoutId\<close> and
  \<open>lastExecTime\<close>, the host's timers, and a log of the calls \<open>func.apply(this, args)\<close>
  with the time of each. \<open>func\<close> is taken to return at once and to leave the wrapper alone.
\<close>

record 'a throttle_state =
  th_host :: "'a host"
  th_timeoutId :: "nat option"
  th_lastExecTime :: int
  th_executed :: "(int \<times> 'a) list"

definition throttle_init :: "'a throttle_state" where
  "throttle_init =
     \<lparr>th_host = host_init, th_timeoutId = None, th_lastExecTime = 0, th_executed = []\<rparr>"

text \<open>
  One call of the wrapper at time \<open>currentTime = Date.now()\<close>. The first branch runs
  \<open>func\<close> at once and leaves a pending timer alone; the second clears the timer that
  \<open>timeoutId\<close> names and sets a new one.
\<close>

definition throttle_call :: "int \<Rightarrow> int \<Rightarrow> 'a \<Rightarrow> 'a throttle_state \<Rightarrow> 'a throttle_state" where
  "throttle_call delay currentTime args s =
     (if currentTime - th_lastExecTime s > delay
      then s\<lparr>th_executed := th_executed s @ [(currentTime, args)],
             th_lastExecTime := currentTime\<rparr>
      else (let h1 = clearTimeout (th_timeoutId s) (th_host s);
                r = setTimeout currentTime (delay - (currentTime - th_lastExecTime s)) args h1
            in s\<lparr>th_host := snd r, th_timeoutId := Some (fst r)\<rparr>))"

text \<open>
  A timer task of the host at time \<open>now\<close>: the first pending timer that is due runs
  and leaves the queue. Its callback is
  \<^verbatim>\<open>func.apply(this, args); lastExecTime = Date.now();\<close>
  so the execution and \<open>lastExecTime\<close> carry the time the timer really runs, which a
  host may make later than the due time and never earlier. With no timer due the task
  does nothing.
\<close>

definition throttle_timer_task :: "int \<Rightarrow> 'a throttle_state \<Rightarrow> 'a throttle_state" where
  "throttle_timer_task now s =
     (case due_timers now (th_host s) of
        [] \<Rightarrow> s
      | tm # _ \<Rightarrow>
          s\<lparr>th_host := (th_host s)\<lparr>queue := filter (\<lambda>x. timer_id x \<noteq> timer_id tm)
                                              (queue (th_host s))\<rparr>,
            th_executed := th_executed s @ [(now, timer_args tm)],
            th_lastExecTime := now\<rparr>)"

text \<open>
  What happens to the wrapper: a call, or a timer task of the host, each with the clock
  reading of its moment. A schedule is a list of these; which timer tasks there are,
  and when, is the host's choice.
\<close>

datatype 'a host_event = Wrapper_call int 'a | Timer_task int

fun event_time :: "'a host_event \<Rightarrow> int" where
  "event_time (Wrapper_call now args) = now"
| "event_time (Timer_task now) = now"

fun throttle_event :: "int \<Rightarrow> 'a host_event \<Rightarrow> 'a throttle_state \<Rightarrow> 'a throttle_state" where
  "throttle_event delay (Wrapper_call now args) s = throttle_call delay now args s"
| "throttle_event delay (Timer_task now) s = throttle_timer_task now s"

definition throttle_run :: "int \<Rightarrow> 'a host_event list \<Rightarrow> 'a throttle_state" where
  "throttle_run delay evs = fold (throttle_event delay) evs throttle_init"

text \<open>
  The schedules of four calls at \<open>t\<close>, \<open>t + 5\<close>, \<open>t + 10\<close> and \<open>t + 20\<close>: before, between
  and after the calls the host runs timer tasks at the times \<open>F0\<close> to \<open>F4\<close>, any
  number of them. \<open>four_calls_returned\<close> is the schedule up to the return of the last call.
\<close>

definition four_calls_returned ::
  "int \<Rightarrow> 'a \<Rightarrow> 'a \<Rightarrow> 'a \<Rightarrow> 'a \<Rightarrow> int list \<Rightarrow> int list \<Rightarrow> int list \<Rightarrow> int list
     \<Rightarrow> 'a host_event list" where
  "four_calls_returned t a0 a1 a2 a3 F0 F1 F2 F3 =
     map Timer_task F0 @ Wrapper_call t a0 #
     map Timer_task F1 @ Wrapper_call (t + 5) a1 #
     map Timer_task F2 @ Wrapper_call (t + 10) a2 #
     map Timer_task F3 @ [Wrapper_call (t + 20) a3]"

definition four_calls ::
  "int \<Rightarrow> 'a \<Rightarrow> 'a \<Rightarrow> 'a \<Rightarrow> 'a \<Rightarrow> int list \<Rightarrow> int list \<Rightarrow> int list \<Rightarrow> int list \<Rightarrow> int list
     \<Rightarrow> 'a host_event list" where
  "four_calls t a0 a1 a2 a3 F0 F1 F2 F3 F4 =
     four_calls_returned t a0 a1 a2 a3 F0 F1 F2 F3 @ map Timer_task F4"

text \<open>The state after the one pending timer \<open>tm\<close> has run at time \<open>f\<close>.\<close>

definition timer_ran :: "'a timer \<Rightarrow> int \<Rightarrow> 'a throttle_state \<Rightarrow> 'a throttle_state" where
  "timer_ran tm f s =
     s\<lparr>th_host := (th_host s)\<lparr>queue := []\<rparr>,
       th_executed := th_executed s @ [(f, timer_args tm)],
       th_lastExecTime := f\<rparr>"

section \<open>debounce\<close>

record 'a debounce_state =
  db_host :: "'a host"
  db_timeoutId :: "nat option"
  db_executed :: "(int \<times> 'a) list"

definition debounce_init :: "'a debounce_state" where
  "debounce_init = \<lparr>db_host = host_init, db_timeoutId = None, db_executed = []\<rparr>"

text \<open>The timer callback: \<^verbatim>\<open>() => func.apply(this, args)\<close>\<close>

definition debounce_timer_fires :: "'a timer \<Rightarrow> 'a debounce_state \<Rightarrow> 'a debounce_state" where
  "debounce_timer_fires tm s =
     s\<lparr>db_executed := db_executed s @ [(timer_due tm, timer_args tm)]\<rparr>"

text \<open>
  The event loop up to time \<open>now\<close>, on a host that runs every timer when it is due.
  The callbacks set no timers, so one pass over the due timers is the whole loop.
\<close>

definition debounce_advance :: "int \<Rightarrow> 'a debounce_state \<Rightarrow> 'a debounce_state" where
  "debounce_advance now s =
     fold debounce_timer_fires (due_timers now (db_host s))
       (s\<lparr>db_host := drop_due now (db_host s)\<rparr>)"

text \<open>\<^verbatim>\<open>clearTimeout(timeoutId); timeoutId = setTimeout(() => func.apply(this, args), delay);\<close>\<close>

definition debounce_call :: "int \<Rightarrow> int \<Rightarrow> 'a \<Rightarrow> 'a debounce_state \<Rightarrow> 'a debounce_state" where
  "debounce_call delay now args s0 =
     (let s = debounce_advance now s0;
          h1 = clearTimeout (db_timeoutId s) (db_host s);
          r = setTimeout now delay args h1
      in s\<lparr>db_host := snd r, db_timeoutId := Some (fst r)\<rparr>)"

definition debounce_run :: "int \<Rightarrow> (int \<times> 'a) list \<Rightarrow> 'a debounce_state" where
  "debounce_run delay calls =
     fold (\<lambda>c. debounce_call delay (fst c) (snd c)) calls debounce_init"

definition debounce_drain :: "'a debounce_state \<Rightarrow> 'a debounce_state" where
  "debounce_drain s =
     fold debounce_timer_fires (sort_key timer_due (queue (db_host s)))
       (s\<lparr>db_host := (db_host s)\<lparr>queue := []\<rparr>\<rparr>)"

section \<open>deviceCapabilities\<close>

text \<open>
  What the scripts read of \<open>window\<close> and \<open>navigator\<close>: the viewport width, the scroll
  offset (a JavaScript number, here an exact rational), whether \<open>'ontouchstart' in window\<close>,
  the two media queries, the user agent string and the device pixel ratio.
\<close>

record window =
  innerWidth :: int
  scrollY :: rat
  ontouchstart_in_window :: bool
  hover_matches :: bool
  reduced_motion_matches :: bool
  userAgent :: string
  devicePixelRatio :: rat

text \<open>
  The responsive-navigation script: \<open>isMobile\<close> and \<open>isTablet\<close> are arrow functions that
  read \<open>window.innerWidth\<close> when they are called, so they take the window of the call;
  the other three properties are values computed from the window at module load.
\<close>

record capabilities =
  isMobile :: "window \<Rightarrow> bool"
  isTablet :: "window \<Rightarrow> bool"
  supportsTouch :: bool
  supportsHover :: bool
  prefersReducedMotion :: bool

definition deviceCapabilities :: "window \<Rightarrow> capabilities" where
  "deviceCapabilities at_load =
     \<lparr>isMobile = (\<lambda>w. innerWidth w \<le> breakpoints_mobile),
      isTablet = (\<lambda>w. innerWidth w > breakpoints_mobile \<and> innerWidth w \<le> breakpoints_tablet),
      supportsTouch = ontouchstart_in_window at_load,
      supportsHover = hover_matches at_load,
      prefersReducedMotion = reduced_motion_matches at_load\<rparr>"

text \<open>
  \<open>script.js\<close>: every property is a value computed at module load. \<open>isMobile\<close> is
  \<^verbatim>\<open>/Android|webOS|iPhone|iPad|iPod|BlackBerry|IEMobile|Opera Mini/i.test(navigator.userAgent)\<close>:
  one of the eight words occurs in the user agent, letter case ignored.
\<close>

definition lower_char :: "char \<Rightarrow> char" where
  "lower_char c =
     (case map_of (zip ''ABCDEFGHIJKLMNOPQRSTUVWXYZ'' ''abcdefghijklmnopqrstuvwxyz'') c of
        Some l \<Rightarrow> l
      | None \<Rightarrow> c)"

fun starts_with :: "string \<Rightarrow> string \<Rightarrow> bool" where
  "starts_with [] s = True"
| "starts_with (p # ps) [] = False"
| "starts_with (p # ps) (c # cs) = (p = c \<and> starts_with ps cs)"

fun occurs_in :: "string \<Rightarrow> string \<Rightarrow> bool" where
  "occurs_in p [] = (p = [])"
| "occurs_in p (c # cs) = (starts_with p (c # cs) \<or> occurs_in p cs)"

definition mobile_userAgent :: "string \<Rightarrow> bool" where
  "mobile_userAgent ua =
     list_ex (\<lambda>p. occurs_in (map lower_char p) (map lower_char ua))
       [''Android'', ''webOS'', ''iPhone'', ''iPad'', ''iPod'', ''BlackBerry'', ''IEMobile'',
        ''Opera Mini'']"

record script_capabilities =
  sj_isMobile :: bool
  sj_isTablet :: bool
  sj_supportsTouch :: bool
  sj_supportsHover :: bool
  sj_prefersReducedMotion :: bool
  sj_isRetina :: bool

definition script_deviceCapabilities :: "window \<Rightarrow> script_capabilities" where
  "script_deviceCapabilities at_load =
     \<lparr>sj_isMobile = mobile_userAgent (userAgent at_load),
      sj_isTablet = (innerWidth at_load \<ge> 768 \<and> innerWidth at_load \<le> 1024),
      sj_supportsTouch = ontouchstart_in_window at_load,
      sj_supportsHover = hover_matches at_load,
      sj_prefersReducedMotion = reduced_motion_matches at_load,
      sj_isRetina = (devicePixelRatio at_load > 1)\<rparr>"

text \<open>A tablet as \<open>script.js\<close> may meet it at load.\<close>

definition ipad_window :: window where
  "ipad_window =
     \<lparr>innerWidth = 820, scrollY = 0, ontouchstart_in_window = True, hover_matches = False,
      reduced_motion_matches = False,
      userAgent = ''Mozilla/5.0 (iPad; CPU OS 16_6 like Mac OS X) AppleWebKit/605.1.15'',
      devicePixelRatio = 2\<rparr>"

section \<open>ScrollAnimations\<close>

text \<open>
  The controller's state is the set of targets its \<open>IntersectionObserver\<close> watches, kept
  as a list in the order of \<open>observe\<close>, and a log of the calls of \<open>animateElement\<close>.
  Elements are numbered. \<open>animateElement\<close> writes only the inline style of its element
  (at once and in one animation frame callback); the model records the call.
\<close>

type_synonym element = nat

record entry =
  target :: element
  isIntersecting :: bool

record scroll_animations =
  observed :: "element list"
  animated :: "element list"

text \<open>The host's \<open>observe\<close> (a target already watched is not added again) and \<open>unobserve\<close>.\<close>

definition observe :: "element \<Rightarrow> scroll_animations \<Rightarrow> scroll_animations" where
  "observe el s = (if el \<in> set (observed s) then s else s\<lparr>observed := observed s @ [el]\<rparr>)"

definition unobserve :: "element \<Rightarrow> scroll_animations \<Rightarrow> scroll_animations" where
  "unobserve el s = s\<lparr>observed := removeAll el (observed s)\<rparr>"

definition animateElement :: "element \<Rightarrow> scroll_animations \<Rightarrow> scroll_animations" where
  "animateElement el s = s\<lparr>animated := animated s @ [el]\<rparr>"

text \<open>
  The observer's callback, the same in both scripts:
  \<^verbatim>\<open>entries.forEach(entry => { if (entry.isIntersecting) {
      this.animateElement(entry.target); this.observer.unobserve(entry.target); } })\<close>
\<close>

fun observer_callback :: "entry list \<Rightarrow> scroll_animations \<Rightarrow> scroll_animations" where
  "observer_callback [] s = s"
| "observer_callback (en # ens) s =
     observer_callback ens
       (if isIntersecting en then unobserve (target en) (animateElement (target en) s) else s)"

definition observeElements :: "element list \<Rightarrow> scroll_animations \<Rightarrow> scroll_animations" where
  "observeElements els s = fold observe els s"

text \<open>
  The constructors. In the responsive-navigation script a visitor who prefers reduced
  motion gets no observer at all; \<open>script.js\<close> always builds one. \<open>els\<close> is what
  \<open>document.querySelectorAll\<close> finds for the four watched classes.
\<close>

definition ScrollAnimations_new :: "bool \<Rightarrow> element list \<Rightarrow> scroll_animations" where
  "ScrollAnimations_new reduced_motion els =
     (if reduced_motion then \<lparr>observed = [], animated = []\<rparr>
      else observeElements els \<lparr>observed = [], animated = []\<rparr>)"

definition script_ScrollAnimations_new :: "element list \<Rightarrow> scroll_animations" where
  "script_ScrollAnimations_new els = observeElements els \<lparr>observed = [], animated = []\<rparr>"

text \<open>
  The host. The observer queues an entry whenever the intersection state of a watched
  target changes, and hands the callback a batch: the entries queued since the callback
  last ran, oldest first. A batch is therefore any list of entries and may hold several
  for one target. A session is the sequence of batches delivered to the callback of a
  controller.
\<close>

definition session :: "entry list list \<Rightarrow> scroll_animations \<Rightarrow> scroll_animations" where
  "session batches s = fold observer_callback batches s"

text \<open>
  The observer queues entries for watched targets only, and only the callback stops
  watching a target: every batch holds entries of targets watched when it is delivered.
\<close>

fun hosted :: "entry list list \<Rightarrow> scroll_animations \<Rightarrow> bool" where
  "hosted [] s = True"
| "hosted (batch # batches) s =
     (list_all (\<lambda>en. target en \<in> set (observed s)) batch
      \<and> hosted batches (observer_callback batch s))"

text \<open>
  How often a batch reports an element intersecting, and that number for the first
  batch of a session that reports it intersecting at all.
\<close>

definition hits :: "element \<Rightarrow> entry list \<Rightarrow> nat" where
  "hits el batch = length (filter (\<lambda>en. target en = el \<and> isIntersecting en) batch)"

fun first_hits :: "element \<Rightarrow> entry list list \<Rightarrow> nat" where
  "first_hits el [] = 0"
| "first_hits el (batch # batches) =
     (if 0 < hits el batch then hits el batch else first_hits el batches)"

section \<open>JavaScript numbers and strings\<close>

text \<open>
  A scroll offset is a JavaScript number; it is modelled as an exact rational. Two
  library functions meet in \<open>Navigation.open\<close> and \<open>Navigation.close\<close>: the conversion
  of a number to a string in a template literal, and \<open>parseInt\<close>.

  \<open>number_to_string\<close> is the plain decimal notation, which JavaScript uses for \<open>0\<close> and
  for numbers from a millionth up to \<open>10 ^ 21\<close>: a sign, the digits of the whole part
  and, for a number that is not whole, a point and the digits of the fraction (at most 20
  of them here; their number and value matter to nothing below, since \<open>parseInt\<close> stops
  at the point).
\<close>

definition digit_char :: "nat \<Rightarrow> char" where
  "digit_char d = ''0123456789'' ! d"

definition digit_val :: "char \<Rightarrow> nat option" where
  "digit_val c = map_of (zip ''0123456789'' [0, 1, 2, 3, 4, 5, 6, 7, 8, 9]) c"

definition hex_val :: "char \<Rightarrow> nat option" where
  "hex_val c =
     map_of (zip ''0123456789abcdefABCDEF''
               [0, 1, 2, 3, 4, 5, 6, 7, 8, 9, 10, 11, 12, 13, 14, 15, 10, 11, 12, 13, 14, 15]) c"

fun show_nat :: "nat \<Rightarrow> string" where
  "show_nat n = (if n < 10 then [digit_char n] else show_nat (n div 10) @ [digit_char (n mod 10)])"

declare show_nat.simps [simp del]

fun frac_digits :: "nat \<Rightarrow> rat \<Rightarrow> string" where
  "frac_digits 0 q = []"
| "frac_digits (Suc n) q =
     (if q = 0 then []
      else digit_char (nat \<lfloor>q * 10\<rfloor>) # frac_digits n (q * 10 - of_int \<lfloor>q * 10\<rfloor>))"

definition number_to_string :: "rat \<Rightarrow> string" where
  "number_to_string q =
     (let a = \<bar>q\<bar>; whole = nat \<lfloor>a\<rfloor>; f = a - of_nat whole
      in (if q < 0 then ''-'' else []) @ show_nat whole
         @ (if f = 0 then [] else ''.'' @ frac_digits 20 f))"

text \<open>The range in which \<open>number_to_string\<close> is what JavaScript prints for an offset.\<close>

definition plain_decimal :: "rat \<Rightarrow> bool" where
  "plain_decimal y = (y = 0 \<or> (1 / 10 ^ 6 \<le> y \<and> y < 10 ^ 21))"

text \<open>
  \<open>parseInt(s)\<close> with no radix: white space is skipped, then a sign, then \<open>0x\<close> or \<open>0X\<close>
  selects base 16; the longest run of digits is read and the rest ignored. With no digit
  the result is NaN, here \<open>None\<close>.
\<close>

definition is_space :: "char \<Rightarrow> bool" where
  "is_space c = (c \<in> set [CHR '' '', CHR 0x09, CHR 0x0A, CHR 0x0B, CHR 0x0C, CHR 0x0D])"

fun parse_digits :: "(char \<Rightarrow> nat option) \<Rightarrow> nat \<Rightarrow> string \<Rightarrow> nat \<Rightarrow> nat" where
  "parse_digits dv radix [] acc = acc"
| "parse_digits dv radix (c # cs) acc =
     (case dv c of None \<Rightarrow> acc | Some d \<Rightarrow> parse_digits dv radix cs (acc * radix + d))"

definition parse_number :: "(char \<Rightarrow> nat option) \<Rightarrow> nat \<Rightarrow> string \<Rightarrow> nat option" where
  "parse_number dv radix s =
     (case s of
        [] \<Rightarrow> None
      | c # cs \<Rightarrow> (case dv c of None \<Rightarrow> None | Some d \<Rightarrow> Some (parse_digits dv radix s 0)))"

definition parseInt :: "string \<Rightarrow> int option" where
  "parseInt s =
     (let s1 = dropWhile is_space s;
          negative = (take 1 s1 = ''-'');
          s2 = (if take 1 s1 = ''-'' \<or> take 1 s1 = ''+'' then drop 1 s1 else s1);
          magnitude = (if take 2 s2 = ''0x'' \<or> take 2 s2 = ''0X''
                       then parse_number hex_val 16 (drop 2 s2)
                       else parse_number digit_val 10 s2)
      in map_option (\<lambda>m. if negative then - int m else int m) magnitude)"

text \<open>
  \<open>window.scrollTo(0, v)\<close>: NaN counts as 0, and so does a negative offset (the top of
  the document). The lower end of the document, which bounds the offset too, is not
  modelled.
\<close>

definition scrollTo :: "int option \<Rightarrow> window \<Rightarrow> window" where
  "scrollTo v wn = wn\<lparr>scrollY := (case v of None \<Rightarrow> 0 | Some n \<Rightarrow> of_int (max 0 n))\<rparr>"

section \<open>The page and the Navigation instance\<close>

text \<open>
  One record holds what \<open>Navigation\<close> reads and writes: the window now and the window
  as it was at module load (from which \<open>deviceCapabilities\<close> was built), the inline style
  of \<open>document.body\<close>, the elements the constructor looks up (\<open>None\<close> where
  \<open>document.querySelector\<close> finds nothing), the links of class \<open>nav-link\<close>, the
  sections that have an \<open>id\<close>, the answers of \<open>document.querySelector\<close> to an \<open>href\<close>,
  the smooth scrolls asked of the window, the console, the fields of the instance, and
  the host's event loop as far as the class uses it (the listeners it has added, the
  callbacks it has handed to \<open>setTimeout\<close>, whether the debounced resize handler and the
  throttled scroll handler are waiting to run, and the errors no handler caught).

  A \<open>classList\<close> is a set of class names. An inline style property is stored as the
  string that was assigned. \<open>console\<close> messages are named, not spelled out. The page has
  one copy of each looked-up element, so \<open>this.navbar\<close> and the element in the document
  are the same field. \<open>this.logo\<close> and \<open>this.scrollTimeout\<close> are never used and left out.
\<close>

datatype error = TypeError | SyntaxError

datatype log_entry =
  Warn_elements_not_found | Log_initialised | Log_menu_opened | Log_menu_closed

record body_style =
  bs_overflow :: string
  bs_position :: string
  bs_top :: string
  bs_width :: string

record navbar_el =
  nb_offsetHeight :: int
  nb_transform :: string

record li_el =
  li_opacity :: string
  li_transform :: string
  li_transition :: string

record list_el =
  nl_classList :: "string set"
  nl_items :: "li_el list"

record toggle_el =
  tg_classList :: "string set"
  tg_in_navbar :: bool

record link_el =
  ln_href :: "string option"
  ln_classList :: "string set"
  ln_in_navbar :: bool

record section_el =
  sc_id :: string
  sc_offsetTop :: int
  sc_offsetHeight :: int

text \<open>
  What \<open>document.querySelector(href)\<close> answers: the string is no selector (as \<open>'#'\<close>
  alone), nothing matches, or the \<open>offsetTop\<close> of the first match.
\<close>

datatype query_result = Invalid_selector | No_match | Match int

datatype listener =
  On_toggle_click | On_link_click nat | On_smooth_link_click nat string
| On_document_click | On_keydown | On_resize | On_scroll | On_touchstart | On_touchmove

datatype timer_action = Scroll_to_section string | Animate_link nat

record world =
  win :: window
  load_window :: window
  body :: body_style
  navbar :: "navbar_el option"
  navToggle :: "toggle_el option"
  navList :: "list_el option"
  navLinks :: "link_el list"
  sections :: "section_el list"
  querySelector :: "string \<Rightarrow> query_result"
  smooth_scrolls :: "int list"
  console :: "log_entry list"
  isOpen :: bool
  lastScrollY :: rat
  listeners :: "listener list"
  timers :: "(int \<times> timer_action) list"
  resize_pending :: bool
  scroll_pending :: bool
  uncaught :: "error list"

text \<open>
  A method either returns or throws; either way it leaves a world behind, with the
  writes it made before it threw. A method body is a list of statements run in order
  up to the first that throws.
\<close>

datatype outcome = Ok world | Raised error world

fun world_of :: "outcome \<Rightarrow> world" where
  "world_of (Ok w) = w"
| "world_of (Raised e w) = w"

fun run_seq :: "(world \<Rightarrow> outcome) list \<Rightarrow> world \<Rightarrow> outcome" where
  "run_seq [] w = Ok w"
| "run_seq (f # fs) w = (case f w of Ok w' \<Rightarrow> run_seq fs w' | Raised e w' \<Rightarrow> Raised e w')"

definition pure_stmt :: "(world \<Rightarrow> world) \<Rightarrow> world \<Rightarrow> outcome" where
  "pure_stmt f w = Ok (f w)"

definition if_then :: "(world \<Rightarrow> bool) \<Rightarrow> (world \<Rightarrow> outcome) \<Rightarrow> world \<Rightarrow> outcome" where
  "if_then c f w = (if c w then f w else Ok w)"

text \<open>A write through \<open>this.navbar\<close>, \<open>this.navToggle\<close> or \<open>this.navList\<close>: a TypeError on null.\<close>

definition with_navbar :: "(navbar_el \<Rightarrow> navbar_el) \<Rightarrow> world \<Rightarrow> outcome" where
  "with_navbar f w =
     (case navbar w of None \<Rightarrow> Raised TypeError w | Some nb \<Rightarrow> Ok (w\<lparr>navbar := Some (f nb)\<rparr>))"

definition with_navToggle :: "(toggle_el \<Rightarrow> toggle_el) \<Rightarrow> world \<Rightarrow> outcome" where
  "with_navToggle f w =
     (case navToggle w of None \<Rightarrow> Raised TypeError w | Some t \<Rightarrow> Ok (w\<lparr>navToggle := Some (f t)\<rparr>))"

definition with_navList :: "(list_el \<Rightarrow> list_el) \<Rightarrow> world \<Rightarrow> outcome" where
  "with_navList f w =
     (case navList w of None \<Rightarrow> Raised TypeError w | Some l \<Rightarrow> Ok (w\<lparr>navList := Some (f l)\<rparr>))"

definition console_log :: "log_entry \<Rightarrow> world \<Rightarrow> world" where
  "console_log e w = w\<lparr>console := console w @ [e]\<rparr>"

text \<open>\<open>deviceCapabilities.isMobile()\<close> and \<open>deviceCapabilities.prefersReducedMotion\<close>.\<close>

definition is_mobile :: "world \<Rightarrow> bool" where
  "is_mobile w = isMobile (deviceCapabilities (load_window w)) (win w)"

definition reduced_motion :: "world \<Rightarrow> bool" where
  "reduced_motion w = prefersReducedMotion (deviceCapabilities (load_window w))"

section \<open>Navigation: the methods\<close>

text \<open>
  The methods keep their names, but for \<open>open\<close> and \<open>close\<close>: \<open>open\<close> is taken in HOL,
  so the two are \<open>open_nav\<close> and \<open>close_nav\<close>.
\<close>

definition link_transition :: string where
  "link_transition =
     ''opacity 300ms cubic-bezier(0.4, 0, 0.2, 1), transform 300ms cubic-bezier(0.4, 0, 0.2, 1)''"

text \<open>
  \<open>animateLinksIn\<close>: unless reduced motion is preferred, every \<open>li\<close> of the menu list is
  hidden and shifted, and a timer is set for each (after \<open>index * stagger + 100\<close> ms) to
  bring it in.
\<close>

definition animateLinksIn :: "world \<Rightarrow> outcome" where
  "animateLinksIn w =
     (if reduced_motion w then Ok w
      else (case navList w of
              None \<Rightarrow> Raised TypeError w
            | Some l \<Rightarrow>
                Ok (w\<lparr>navList := Some (l\<lparr>nl_items :=
                        map (\<lambda>li. li\<lparr>li_opacity := ''0'', li_transform := ''translateX(-20px)''\<rparr>)
                          (nl_items l)\<rparr>),
                      timers := timers w
                        @ map (\<lambda>i. (int i * animations_stagger + 100, Animate_link i))
                            [0..<length (nl_items l)]\<rparr>)))"

text \<open>
  The body-scroll lock of \<open>open\<close>:
  \<^verbatim>\<open>body.style.overflow = 'hidden'; body.style.position = 'fixed';
     body.style.top = `-${window.scrollY}px`; body.style.width = '100%';\<close>
  The offset is what the window reports when the method is entered; the style writes
  before the read are taken to leave the report as it was.
\<close>

definition lock_body :: "world \<Rightarrow> world" where
  "lock_body w =
     w\<lparr>body := (body w)\<lparr>bs_overflow := ''hidden'', bs_position := ''fixed'',
          bs_top := ''-'' @ number_to_string (scrollY (win w)) @ ''px'',
          bs_width := ''100%''\<rparr>\<rparr>"

definition open_nav :: "world \<Rightarrow> outcome" where
  "open_nav =
     run_seq
       [with_navList (\<lambda>l. l\<lparr>nl_classList := insert ''active'' (nl_classList l)\<rparr>),
        with_navToggle (\<lambda>t. t\<lparr>tg_classList := insert ''active'' (tg_classList t)\<rparr>),
        pure_stmt (\<lambda>w. w\<lparr>isOpen := True\<rparr>),
        if_then is_mobile (pure_stmt lock_body),
        animateLinksIn,
        pure_stmt (console_log Log_menu_opened)]"

text \<open>
  The release in \<open>close\<close>:
  \<^verbatim>\<open>const scrollY = body.style.top; body.style.position = ''; body.style.top = '';
     body.style.overflow = ''; body.style.width = '';
     window.scrollTo(0, parseInt(scrollY || '0') * -1);\<close>
\<close>

definition unlock_body :: "world \<Rightarrow> world" where
  "unlock_body w =
     (let scrollY_str = bs_top (body w);
          w1 = w\<lparr>body := (body w)\<lparr>bs_position := [], bs_top := [], bs_overflow := [],
                  bs_width := []\<rparr>\<rparr>
      in w1\<lparr>win := scrollTo
            (map_option (\<lambda>n. n * - 1) (parseInt (if scrollY_str = [] then ''0'' else scrollY_str)))
            (win w1)\<rparr>)"

definition close_nav :: "world \<Rightarrow> outcome" where
  "close_nav =
     run_seq
       [with_navList (\<lambda>l. l\<lparr>nl_classList := nl_classList l - {''active''}\<rparr>),
        with_navToggle (\<lambda>t. t\<lparr>tg_classList := tg_classList t - {''active''}\<rparr>),
        pure_stmt (\<lambda>w. w\<lparr>isOpen := False\<rparr>),
        if_then is_mobile (pure_stmt unlock_body),
        pure_stmt (console_log Log_menu_closed)]"

definition toggle :: "world \<Rightarrow> outcome" where
  "toggle w = (if isOpen w then close_nav w else open_nav w)"

definition handleResize :: "world \<Rightarrow> outcome" where
  "handleResize =
     run_seq
       [if_then (\<lambda>w. \<not> is_mobile w \<and> isOpen w) close_nav,
        if_then (\<lambda>w. \<not> is_mobile w)
          (with_navList (\<lambda>l. l\<lparr>nl_items :=
              map (\<lambda>li. li\<lparr>li_opacity := [], li_transform := [], li_transition := []\<rparr>)
                (nl_items l)\<rparr>))]"

text \<open>
  \<open>updateActiveLink\<close>. The loop over the sections keeps the identifier of the last
  section whose band holds the scroll offset; below 100 px the result is emptied. Then
  every link loses the class \<open>active\<close> and gets it back if its \<open>href\<close> is the one sought.
  The first section already reads \<open>this.navbar.offsetHeight\<close>.
\<close>

definition in_section :: "int \<Rightarrow> rat \<Rightarrow> section_el \<Rightarrow> bool" where
  "in_section navbar_height y s =
     (let sectionTop = sc_offsetTop s - navbar_height - 50;
          sectionHeight = sc_offsetHeight s
      in y \<ge> of_int sectionTop \<and> y < of_int (sectionTop + sectionHeight))"

fun scan_sections :: "int \<Rightarrow> rat \<Rightarrow> section_el list \<Rightarrow> string \<Rightarrow> string" where
  "scan_sections h y [] current = current"
| "scan_sections h y (s # ss) current =
     scan_sections h y ss (if in_section h y s then sc_id s else current)"

definition current_section :: "world \<Rightarrow> string" where
  "current_section w =
     (let h = (case navbar w of None \<Rightarrow> 0 | Some nb \<Rightarrow> nb_offsetHeight nb);
          y = scrollY (win w);
          current = scan_sections h y (sections w) []
      in if y < 100 then [] else current)"

definition mark_link :: "string \<Rightarrow> link_el \<Rightarrow> link_el" where
  "mark_link current l =
     (let l1 = l\<lparr>ln_classList := ln_classList l - {''active''}\<rparr>;
          href = ln_href l1
      in if (current = [] \<and> href = Some ''#'') \<or> (current \<noteq> [] \<and> href = Some (''#'' @ current))
         then l1\<lparr>ln_classList := insert ''active'' (ln_classList l1)\<rparr>
         else l1)"

definition updateActiveLink :: "world \<Rightarrow> outcome" where
  "updateActiveLink w =
     (if sections w \<noteq> [] \<and> navbar w = None then Raised TypeError w
      else Ok (w\<lparr>navLinks := map (mark_link (current_section w)) (navLinks w)\<rparr>))"

definition handleScroll :: "world \<Rightarrow> outcome" where
  "handleScroll w =
     (let currentScrollY = scrollY (win w);
          last = lastScrollY w
      in run_seq
           [if_then (\<lambda>_. \<bar>currentScrollY - last\<bar> > 10)
              (with_navbar (\<lambda>nb. nb\<lparr>nb_transform :=
                 (if currentScrollY > last \<and> currentScrollY > 100
                  then ''translateY(-100%)'' else ''translateY(0)'')\<rparr>)),
            pure_stmt (\<lambda>w'. w'\<lparr>lastScrollY := currentScrollY\<rparr>),
            updateActiveLink] w)"

text \<open>
  \<open>scrollToSection\<close> asks the window for a smooth scroll; the request is recorded, the
  scrolling itself is the host's and arrives as scroll events.
\<close>

definition scrollToSection :: "string \<Rightarrow> world \<Rightarrow> outcome" where
  "scrollToSection href w =
     (case querySelector w href of
        Invalid_selector \<Rightarrow> Raised SyntaxError w
      | No_match \<Rightarrow> Ok w
      | Match target_offsetTop \<Rightarrow>
          (case navbar w of
             None \<Rightarrow> Raised TypeError w
           | Some nb \<Rightarrow>
               Ok (w\<lparr>smooth_scrolls := smooth_scrolls w
                       @ [target_offsetTop - (nb_offsetHeight nb + 20)]\<rparr>)))"

section \<open>Navigation: construction\<close>

definition add_listeners :: "listener list \<Rightarrow> world \<Rightarrow> world" where
  "add_listeners ls w = w\<lparr>listeners := listeners w @ ls\<rparr>"

definition preventBodyScroll :: "world \<Rightarrow> outcome" where
  "preventBodyScroll w =
     (case navList w of
        None \<Rightarrow> Raised TypeError w
      | Some l \<Rightarrow> Ok (add_listeners [On_touchstart, On_touchmove] w))"

definition bindEvents :: "world \<Rightarrow> outcome" where
  "bindEvents =
     run_seq
       [\<lambda>w. (case navToggle w of
                None \<Rightarrow> Raised TypeError w
              | Some t \<Rightarrow> Ok (add_listeners [On_toggle_click] w)),
        \<lambda>w. Ok (add_listeners (map On_link_click [0..<length (navLinks w)]) w),
        pure_stmt (add_listeners [On_document_click, On_keydown, On_resize, On_scroll]),
        preventBodyScroll]"

text \<open>
  \<open>initSmoothScroll\<close> adds a second click listener to the links whose \<open>href\<close> is set,
  starts with \<open>#\<close> and is not \<open>#\<close> alone; the listener keeps the \<open>href\<close> it saw.
\<close>

definition smooth_listeners :: "link_el list \<Rightarrow> listener list" where
  "smooth_listeners links =
     concat (map (\<lambda>i. (case ln_href (links ! i) of
                          None \<Rightarrow> []
                        | Some href \<Rightarrow>
                            if href \<noteq> [] \<and> starts_with ''#'' href \<and> href \<noteq> ''#''
                            then [On_smooth_link_click i href] else []))
                 [0..<length links])"

definition initSmoothScroll :: "world \<Rightarrow> outcome" where
  "initSmoothScroll w = Ok (add_listeners (smooth_listeners (navLinks w)) w)"

definition init :: "world \<Rightarrow> outcome" where
  "init =
     run_seq
       [bindEvents, initSmoothScroll, updateActiveLink, handleResize,
        pure_stmt (console_log Log_initialised)]"

text \<open>The constructor, run on the page as the document has it.\<close>

definition Navigation_new :: "world \<Rightarrow> outcome" where
  "Navigation_new page =
     (let w = page\<lparr>isOpen := False, lastScrollY := 0\<rparr>
      in if navbar w = None \<or> navToggle w = None \<or> navList w = None
         then Ok (console_log Warn_elements_not_found w)
         else init w)"

section \<open>Navigation: the listeners and the event loop\<close>

text \<open>The click listener \<open>bindEvents\<close> gives link \<open>i\<close>.\<close>

definition link_click :: "nat \<Rightarrow> world \<Rightarrow> outcome" where
  "link_click i w =
     (if isOpen w \<and> is_mobile w
      then (case ln_href (navLinks w ! i) of
              None \<Rightarrow> Raised TypeError w
            | Some href \<Rightarrow>
                if starts_with ''#'' href
                then run_seq
                       [close_nav,
                        pure_stmt (\<lambda>w'. w'\<lparr>timers := timers w' @ [(150, Scroll_to_section href)]\<rparr>)] w
                else close_nav w)
      else Ok w)"

definition document_click :: "bool \<Rightarrow> world \<Rightarrow> outcome" where
  "document_click inside_navbar w =
     (if isOpen w \<and> is_mobile w
      then (case navbar w of
              None \<Rightarrow> Raised TypeError w
            | Some nb \<Rightarrow> if \<not> inside_navbar then close_nav w else Ok w)
      else Ok w)"

definition document_keydown :: "string \<Rightarrow> world \<Rightarrow> outcome" where
  "document_keydown key w = (if key = ''Escape'' \<and> isOpen w then close_nav w else Ok w)"

definition timer_callback :: "timer_action \<Rightarrow> world \<Rightarrow> outcome" where
  "timer_callback a w =
     (case a of
        Scroll_to_section href \<Rightarrow> scrollToSection href w
      | Animate_link i \<Rightarrow>
          (case navList w of
             None \<Rightarrow> Ok w
           | Some l \<Rightarrow>
               if i < length (nl_items l)
               then Ok (w\<lparr>navList := Some (l\<lparr>nl_items := (nl_items l)
                          [i := (nl_items l ! i)\<lparr>li_transition := link_transition,
                                  li_opacity := ''1'', li_transform := ''translateX(0)''\<rparr>]\<rparr>)\<rparr>)
               else Ok w))"

text \<open>The public methods, for a caller that holds the instance.\<close>

datatype method_call =
  M_toggle | M_open | M_close | M_handleResize | M_handleScroll | M_updateActiveLink
| M_scrollToSection string | M_animateLinksIn

definition method_body :: "method_call \<Rightarrow> world \<Rightarrow> outcome" where
  "method_body m =
     (case m of
        M_toggle \<Rightarrow> toggle | M_open \<Rightarrow> open_nav | M_close \<Rightarrow> close_nav
      | M_handleResize \<Rightarrow> handleResize | M_handleScroll \<Rightarrow> handleScroll
      | M_updateActiveLink \<Rightarrow> updateActiveLink
      | M_scrollToSection href \<Rightarrow> scrollToSection href
      | M_animateLinksIn \<Rightarrow> animateLinksIn)"

text \<open>
  What can happen to the page. A click is on the toggle button, on link \<open>i\<close>, or
  elsewhere (inside the navbar or not). \<open>Resize\<close> and \<open>Scroll\<close> are the host changing the
  viewport width and the scroll offset; with a listener bound they leave the debounced
  or throttled handler waiting, and \<open>Resize_timer\<close> and \<open>Scroll_handler\<close> are the
  moments the handler runs. \<open>Timer k\<close> runs the \<open>k\<close>-th pending \<open>setTimeout\<close> callback.
  \<open>Call\<close> is a direct call of a method. The two touch listeners write nothing the model
  holds, so touches are left out.
\<close>

datatype event =
  Click_toggle | Click_link nat | Click_elsewhere bool | Keydown string
| Resize int | Resize_timer | Scroll rat | Scroll_handler | Timer nat | Call method_call

text \<open>An error a listener throws is reported by the host and the other listeners still run.\<close>

definition run_listener :: "(world \<Rightarrow> outcome) \<Rightarrow> world \<Rightarrow> world" where
  "run_listener h w =
     (case h w of Ok w' \<Rightarrow> w' | Raised e w' \<Rightarrow> w'\<lparr>uncaught := uncaught w' @ [e]\<rparr>)"

definition run_listeners :: "(listener \<Rightarrow> (world \<Rightarrow> outcome) option) \<Rightarrow> world \<Rightarrow> world" where
  "run_listeners react w =
     fold (\<lambda>l w'. (case react l of None \<Rightarrow> w' | Some h \<Rightarrow> run_listener h w')) (listeners w) w"

definition toggle_react :: "listener \<Rightarrow> (world \<Rightarrow> outcome) option" where
  "toggle_react l = (if l = On_toggle_click then Some toggle else None)"

definition link_react :: "nat \<Rightarrow> listener \<Rightarrow> (world \<Rightarrow> outcome) option" where
  "link_react i l =
     (case l of
        On_link_click j \<Rightarrow> if j = i then Some (link_click i) else None
      | On_smooth_link_click j href \<Rightarrow> if j = i then Some (scrollToSection href) else None
      | _ \<Rightarrow> None)"

definition document_react :: "bool \<Rightarrow> listener \<Rightarrow> (world \<Rightarrow> outcome) option" where
  "document_react inside_navbar l =
     (if l = On_document_click then Some (document_click inside_navbar) else None)"

definition keydown_react :: "string \<Rightarrow> listener \<Rightarrow> (world \<Rightarrow> outcome) option" where
  "keydown_react key l = (if l = On_keydown then Some (document_keydown key) else None)"

text \<open>
  A click on the toggle button stops at the button's listener (\<open>stopPropagation\<close>); with
  no such listener it reaches the document. A click on a link runs the link's listeners
  and then the document's.
\<close>

definition step :: "event \<Rightarrow> world \<Rightarrow> world" where
  "step ev w =
     (case ev of
        Click_toggle \<Rightarrow>
          (case navToggle w of
             None \<Rightarrow> w
           | Some t \<Rightarrow>
               if On_toggle_click \<in> set (listeners w) then run_listeners toggle_react w
               else run_listeners (document_react (tg_in_navbar t)) w)
      | Click_link i \<Rightarrow>
          if i < length (navLinks w)
          then run_listeners (document_react (ln_in_navbar (navLinks w ! i)))
                 (run_listeners (link_react i) w)
          else w
      | Click_elsewhere inside_navbar \<Rightarrow> run_listeners (document_react inside_navbar) w
      | Keydown key \<Rightarrow> run_listeners (keydown_react key) w
      | Resize width \<Rightarrow>
          (let w1 = w\<lparr>win := (win w)\<lparr>innerWidth := width\<rparr>\<rparr>
           in if On_resize \<in> set (listeners w1) then w1\<lparr>resize_pending := True\<rparr> else w1)
      | Resize_timer \<Rightarrow>
          if resize_pending w then run_listener handleResize (w\<lparr>resize_pending := False\<rparr>) else w
      | Scroll y \<Rightarrow>
          (let w1 = w\<lparr>win := (win w)\<lparr>scrollY := y\<rparr>\<rparr>
           in if On_scroll \<in> set (listeners w1) then w1\<lparr>scroll_pending := True\<rparr> else w1)
      | Scroll_handler \<Rightarrow>
          if scroll_pending w then run_listener handleScroll (w\<lparr>scroll_pending := False\<rparr>) else w
      | Timer k \<Rightarrow>
          if k < length (timers w)
          then run_listener (timer_callback (snd (timers w ! k)))
                 (w\<lparr>timers := take k (timers w) @ drop (Suc k) (timers w)\<rparr>)
          else w
      | Call m \<Rightarrow> run_listener (method_body m) w)"

definition run :: "event list \<Rightarrow> world \<Rightarrow> world" where
  "run evs w = fold step evs w"

text \<open>What the host alone does to the window on an event.\<close>

definition env_window :: "event \<Rightarrow> window \<Rightarrow> window" where
  "env_window ev wn =
     (case ev of
        Resize width \<Rightarrow> wn\<lparr>innerWidth := width\<rparr>
      | Scroll y \<Rightarrow> wn\<lparr>scrollY := y\<rparr>
      | _ \<Rightarrow> wn)"

definition is_method_call :: "event \<Rightarrow> bool" where
  "is_method_call ev = (case ev of Call m \<Rightarrow> True | _ \<Rightarrow> False)"

section \<open>Observations on a page\<close>

definition elements_present :: "world \<Rightarrow> bool" where
  "elements_present w = (navbar w \<noteq> None \<and> navToggle w \<noteq> None \<and> navList w \<noteq> None)"

definition menu_present :: "world \<Rightarrow> bool" where
  "menu_present w = (navToggle w \<noteq> None \<and> navList w \<noteq> None)"

definition list_active :: "world \<Rightarrow> bool" where
  "list_active w = (case navList w of None \<Rightarrow> False | Some l \<Rightarrow> ''active'' \<in> nl_classList l)"

definition toggle_active :: "world \<Rightarrow> bool" where
  "toggle_active w = (case navToggle w of None \<Rightarrow> False | Some t \<Rightarrow> ''active'' \<in> tg_classList t)"

text \<open>The body-scroll lock is in effect: the body is fixed and its overflow hidden.\<close>

definition scroll_locked :: "world \<Rightarrow> bool" where
  "scroll_locked w = (bs_position (body w) = ''fixed'' \<and> bs_overflow (body w) = ''hidden'')"

text \<open>A page no script has touched yet: no listener, no timer, no handler waiting.\<close>

definition fresh_page :: "world \<Rightarrow> bool" where
  "fresh_page p = (listeners p = [] \<and> timers p = [] \<and> \<not> resize_pending p \<and> \<not> scroll_pending p)"

text \<open>
  What the menu properties read of a world, and the two ways a step can change it: as
  \<open>close\<close> does and as \<open>open\<close> does.
\<close>

type_synonym core = "bool \<times> bool \<times> bool \<times> bool \<times> bool \<times> int \<times> listener list"

definition core :: "world \<Rightarrow> core" where
  "core w = (isOpen w, list_active w, toggle_active w, menu_present w, scroll_locked w,
             innerWidth (win w), listeners w)"

definition closed_c :: "core \<Rightarrow> core" where
  "closed_c c = (case c of (opn, la, ta, mp, sl, iw, ls) \<Rightarrow>
       (False, False, False, mp, sl \<and> \<not> iw \<le> breakpoints_mobile, iw, ls))"

definition opened_c :: "core \<Rightarrow> core" where
  "opened_c c = (case c of (opn, la, ta, mp, sl, iw, ls) \<Rightarrow>
       (True, True, True, mp, sl \<or> iw \<le> breakpoints_mobile, iw, ls))"

definition resized_c :: "int \<Rightarrow> core \<Rightarrow> core" where
  "resized_c width c = (case c of (opn, la, ta, mp, sl, iw, ls) \<Rightarrow> (opn, la, ta, mp, sl, width, ls))"

definition menu_effect :: "core \<Rightarrow> core \<Rightarrow> bool" where
  "menu_effect c c' = (c' = c \<or> c' = closed_c c \<or> c' = opened_c c)"

definition close_effect :: "core \<Rightarrow> core \<Rightarrow> bool" where
  "close_effect c c' = (c' = c \<or> c' = closed_c c)"

text \<open>The events whose handler calls \<open>open\<close>: a click on the toggle button, \<open>toggle()\<close>, \<open>open()\<close>.\<close>

definition calls_open :: "event \<Rightarrow> bool" where
  "calls_open ev = (ev = Click_toggle \<or> ev = Call M_toggle \<or> ev = Call M_open)"

text \<open>
  The events whose handler calls \<open>close\<close>: a click on the toggle button, on a link or
  elsewhere, a key, the resize handler, \<open>toggle()\<close>, \<open>close()\<close> and \<open>handleResize()\<close>.
\<close>

definition calls_close :: "event \<Rightarrow> bool" where
  "calls_close ev =
     (case ev of
        Click_toggle \<Rightarrow> True | Click_link i \<Rightarrow> True | Click_elsewhere inside_navbar \<Rightarrow> True
      | Keydown key \<Rightarrow> True | Resize_timer \<Rightarrow> True
      | Call m \<Rightarrow> m = M_toggle \<or> m = M_close \<or> m = M_handleResize
      | _ \<Rightarrow> False)"

text \<open>
  A resize that takes the viewport across the mobile breakpoint while the menu is open,
  and the event lists in which no event is one when it happens.
\<close>

definition crossing_while_open :: "world \<Rightarrow> event \<Rightarrow> bool" where
  "crossing_while_open w ev =
     (case ev of
        Resize width \<Rightarrow> isOpen w \<and> (width \<le> breakpoints_mobile) \<noteq> is_mobile w
      | _ \<Rightarrow> False)"

fun steady :: "event list \<Rightarrow> world \<Rightarrow> bool" where
  "steady [] w = True"
| "steady (ev # evs) w = (\<not> crossing_while_open w ev \<and> steady evs (step ev w))"

text \<open>The invariants of the menu state, of the listeners and of the lock.\<close>

definition consistent_c :: "core \<Rightarrow> bool" where
  "consistent_c c = (case c of (opn, la, ta, mp, sl, iw, ls) \<Rightarrow> mp \<and> opn = la \<and> opn = ta)"

definition bound_c :: "listener list \<Rightarrow> core \<Rightarrow> bool" where
  "bound_c ls0 c = (case c of (opn, la, ta, mp, sl, iw, ls) \<Rightarrow> mp \<and> ls = ls0)"

definition locked_c :: "core \<Rightarrow> bool" where
  "locked_c c = (case c of (opn, la, ta, mp, sl, iw, ls) \<Rightarrow>
      mp \<and> sl = (opn \<and> iw \<le> breakpoints_mobile))"

section \<open>Sample pages\<close>

text \<open>
  A phone in portrait and a tablet in landscape, and a page of the site: a navbar 70 px
  high with the toggle button and a menu of three links (home, \<open>#servicios\<close>,
  \<open>#contacto\<close>), and three sections, of which \<open>proyectos\<close> has no link in the menu.
\<close>

definition phone :: window where
  "phone =
     \<lparr>innerWidth = 390, scrollY = 0, ontouchstart_in_window = True, hover_matches = False,
      reduced_motion_matches = False,
      userAgent = ''Mozilla/5.0 (iPhone; CPU iPhone OS 16_6 like Mac OS X)'',
      devicePixelRatio = 3\<rparr>"

definition tablet_landscape :: window where
  "tablet_landscape = phone\<lparr>innerWidth := 1180\<rparr>"

definition sample_page :: "window \<Rightarrow> world" where
  "sample_page wn =
     \<lparr>win = wn, load_window = wn,
      body = \<lparr>bs_overflow = [], bs_position = [], bs_top = [], bs_width = []\<rparr>,
      navbar = Some \<lparr>nb_offsetHeight = 70, nb_transform = []\<rparr>,
      navToggle = Some \<lparr>tg_classList = {''nav-toggle''}, tg_in_navbar = True\<rparr>,
      navList = Some \<lparr>nl_classList = {''nav-list''},
                  nl_items = replicate 3 \<lparr>li_opacity = [], li_transform = [], li_transition = []\<rparr>\<rparr>,
      navLinks = [\<lparr>ln_href = Some ''#'', ln_classList = {''nav-link''}, ln_in_navbar = True\<rparr>,
                  \<lparr>ln_href = Some ''#servicios'', ln_classList = {''nav-link''}, ln_in_navbar = True\<rparr>,
                  \<lparr>ln_href = Some ''#contacto'', ln_classList = {''nav-link''}, ln_in_navbar = True\<rparr>],
      sections = [\<lparr>sc_id = ''servicios'', sc_offsetTop = 700, sc_offsetHeight = 900\<rparr>,
                  \<lparr>sc_id = ''proyectos'', sc_offsetTop = 1600, sc_offsetHeight = 800\<rparr>,
                  \<lparr>sc_id = ''contacto'', sc_offsetTop = 2400, sc_offsetHeight = 600\<rparr>],
      querySelector = (\<lambda>sel. if sel = ''#'' then Invalid_selector
                        else if sel = ''#servicios'' then Match 700
                        else if sel = ''#proyectos'' then Match 1600
                        else if sel = ''#contacto'' then Match 2400 else No_match),
      smooth_scrolls = [], console = [], isOpen = False, lastScrollY = 0, listeners = [],
      timers = [], resize_pending = False, scroll_pending = False, uncaught = []\<rparr>"

chapter \<open>Properties\<close>

section \<open>Easing\<close>

text \<open>
  C10. For every start \<open>b\<close>, distance \<open>c\<close> and positive duration \<open>d\<close>, the easing
  function returns exactly \<open>b\<close> at elapsed time \<open>0\<close> and exactly \<open>b + c\<close> at elapsed
  time \<open>d\<close>.
\<close>

theorem easeInOutQuad_endpoints:
  "0 < d \<Longrightarrow> easeInOutQuad 0 b c d = b \<and> easeInOutQuad d b c d = b + c"
  by (simp add: easeInOutQuad_def Let_def)

theorem easeInOutQuad_endpoints_witness:
  "(0::rat) < 800 \<and> easeInOutQuad 0 120 (-45) 800 = 120 \<and> easeInOutQuad 800 120 (-45) 800 = 75"
  using easeInOutQuad_endpoints [of 800 120 "-45"] by simp

section \<open>Timing wrappers\<close>

lemmas timer_defs =
  timer_id_def timer_due_def timer_args_def host_init_def setTimeout_def clearTimeout_def
  due_timers_def drop_due_def

lemmas debounce_defs =
  debounce_run_def debounce_call_def debounce_advance_def debounce_drain_def
  debounce_init_def debounce_timer_fires_def

text \<open>
  C7. The debounce wrapper built with the configured delay of 300 ms, called at
  \<open>t\<close>, \<open>t + 50\<close> and \<open>t + 100\<close>, runs the function exactly once, at \<open>t + 400\<close>, with
  the arguments of the third call. (\<open>debounce\<close> never reads the clock, so only the
  distances between the calls count; \<open>t = 0\<close> gives the times of the claim.)
\<close>

theorem debounce_three_calls:
  "db_executed (debounce_drain
      (debounce_run debounceDelay [(t, a0), (t + 50, a1), (t + 100, a2)]))
   = [(t + 400, a2)]"
  by (simp add: debounce_defs timer_defs debounceDelay_def Let_def)

theorem debounce_three_calls_witness:
  "db_executed (debounce_drain
      (debounce_run debounceDelay [(0, ''first''), (50, ''second''), (100, ''third'')]))
   = [(400, ''third'')]"
  using debounce_three_calls [of 0 "''first''" "''second''" "''third''"] by simp

text \<open>Before its timer runs out nothing has been executed.\<close>

lemma debounce_three_calls_pending:
  "db_executed (debounce_run debounceDelay [(t, a0), (t + 50, a1), (t + 100, a2)]) = []"
  by (simp add: debounce_defs timer_defs debounceDelay_def Let_def)

text \<open>
  The timer tasks of the host between two calls. With no timer pending they do nothing;
  with one pending, the first task at or after its due time runs it and the others do
  nothing.
\<close>

lemma tasks_fold:
  "fold (throttle_event d) (map Timer_task F) s = fold throttle_timer_task F s"
  by (induction F arbitrary: s) simp_all

lemma tasks_idle:
  "queue (th_host s) = [] \<Longrightarrow> fold throttle_timer_task F s = s"
  by (induction F) (simp_all add: throttle_timer_task_def due_timers_def)

lemma tasks_one:
  "queue (th_host s) = [tm] \<Longrightarrow>
   fold throttle_timer_task F s =
     (case find (\<lambda>x. timer_due tm \<le> x) F of None \<Rightarrow> s | Some f \<Rightarrow> timer_ran tm f s)"
proof (induction F)
  case Nil
  show ?case by simp
next
  case (Cons x F)
  show ?case
  proof (cases "timer_due tm \<le> x")
    case True
    with Cons.prems have "throttle_timer_task x s = timer_ran tm x s"
      by (simp add: throttle_timer_task_def due_timers_def timer_ran_def)
    moreover have "queue (th_host (timer_ran tm x s)) = []"
      by (simp add: timer_ran_def)
    ultimately show ?thesis using True by (simp add: tasks_idle)
  next
    case False
    with Cons.prems have "throttle_timer_task x s = s"
      by (simp add: throttle_timer_task_def due_timers_def)
    with Cons False show ?thesis by simp
  qed
qed

text \<open>The two branches of a call.\<close>

lemma call_leading:
  "delay < now - th_lastExecTime s \<Longrightarrow>
   throttle_call delay now args s =
     s\<lparr>th_executed := th_executed s @ [(now, args)], th_lastExecTime := now\<rparr>"
  by (simp add: throttle_call_def)

lemma call_trailing:
  "\<not> delay < now - th_lastExecTime s \<Longrightarrow>
   throttle_call delay now args s =
     s\<lparr>th_host := \<lparr>queue = filter (\<lambda>tm. Some (timer_id tm) \<noteq> th_timeoutId s) (queue (th_host s))
                           @ [(next_id (th_host s), now + max 0 (delay - (now - th_lastExecTime s)), args)],
                  next_id = next_id (th_host s) + 1\<rparr>,
       th_timeoutId := Some (next_id (th_host s))\<rparr>"
  by (cases "th_timeoutId s") (simp_all add: throttle_call_def setTimeout_def clearTimeout_def Let_def)

text \<open>
  C3, as the claim states it: four calls at 0, 5, 10 and 20 ms lead to exactly two
  executions, one near 0 and a trailing one at about 16 ms. With the times counted from
  a first call at clock time 1000 (\<open>Date.now()\<close> is far beyond 16) the code executes
  three times. On a host that runs the timer when it is due, the call at 20 ms comes
  4 ms after the trailing execution at 16 ms and schedules one more, which runs at
  32 ms. On a host that has not yet run the timer at 20 ms, the last call is executed
  at once (the first branch does not clear the pending timer) and the timer runs after
  it. With the times taken as clock readings, the clock starting at 0, the first call
  is not executed at once (\<open>lastExecTime\<close> starts at 0, and \<open>0 - 0 > 16\<close> is false): the
  two executions are trailing ones, at 16 and 32 ms.
\<close>

theorem throttle_four_calls_counterexample:
  "th_executed (throttle_run throttleDelay
      [Wrapper_call 1000 ''a'', Wrapper_call 1005 ''b'', Wrapper_call 1010 ''c'',
       Timer_task 1016, Wrapper_call 1020 ''d'', Timer_task 1032])
     = [(1000, ''a''), (1016, ''c''), (1032, ''d'')]
   \<and> length (th_executed (throttle_run throttleDelay
      [Wrapper_call 1000 ''a'', Wrapper_call 1005 ''b'', Wrapper_call 1010 ''c'',
       Timer_task 1016, Wrapper_call 1020 ''d'', Timer_task 1032])) \<noteq> 2
   \<and> th_executed (throttle_run throttleDelay
      [Wrapper_call 1000 ''a'', Wrapper_call 1005 ''b'', Wrapper_call 1010 ''c'',
       Wrapper_call 1020 ''d'', Timer_task 1021])
     = [(1000, ''a''), (1020, ''d''), (1021, ''c'')]
   \<and> th_executed (throttle_run throttleDelay
      [Wrapper_call 0 ''a'', Wrapper_call 5 ''b'', Wrapper_call 10 ''c'',
       Timer_task 16, Wrapper_call 20 ''d'', Timer_task 32])
     = [(16, ''c''), (32, ''d'')]"
  by code_simp

text \<open>
  C3, amended. The first call comes at a clock time \<open>t > 16\<close> and the others 5, 10 and
  20 ms later. The host runs timer tasks whenever it likes, in time order with the
  calls, a timer never before it is due, and in the end no timer is left pending. Then
  the function is executed exactly three times, the first time at \<open>t\<close> with the first
  call's arguments, and never with the arguments of the call at \<open>t + 5\<close>. If the host
  runs a timer task between the call at \<open>t + 10\<close> and the last call at a time from
  \<open>t + 16\<close> on, the first such time being \<open>f\<close>, then exactly two executions have
  happened when the last call returns, the second at \<open>f\<close> with the arguments of the call
  at \<open>t + 10\<close>, and the last call sets a timer that runs in the first timer task at
  \<open>f + 16\<close> or later, with its own arguments. If the host runs no such task, the timer
  is still pending at \<open>t + 20\<close>: the last call is executed at once, exactly two
  executions have happened when it returns, and the timer runs in the first timer task
  after it, with the arguments of the call at \<open>t + 10\<close>.
\<close>

theorem throttle_four_calls:
  fixes a0 a1 a2 a3 :: 'a
  assumes t: "throttleDelay < t"
    and srt: "sorted (map event_time (four_calls t a0 a1 a2 a3 F0 F1 F2 F3 F4))"
    and quiet: "queue (th_host (throttle_run throttleDelay
                  (four_calls t a0 a1 a2 a3 F0 F1 F2 F3 F4))) = []"
  shows "(case find (\<lambda>x. t + 16 \<le> x) F3 of
            Some f \<Rightarrow>
              f \<le> t + 20
              \<and> th_executed (throttle_run throttleDelay
                    (four_calls_returned t a0 a1 a2 a3 F0 F1 F2 F3))
                  = [(t, a0), (f, a2)]
              \<and> (\<exists>g. find (\<lambda>x. f + 16 \<le> x) F4 = Some g
                    \<and> th_executed (throttle_run throttleDelay
                          (four_calls t a0 a1 a2 a3 F0 F1 F2 F3 F4))
                        = [(t, a0), (f, a2), (g, a3)])
          | None \<Rightarrow>
              th_executed (throttle_run throttleDelay
                    (four_calls_returned t a0 a1 a2 a3 F0 F1 F2 F3))
                  = [(t, a0), (t + 20, a3)]
              \<and> (\<exists>g. F4 \<noteq> [] \<and> g = hd F4 \<and> t + 20 \<le> g
                    \<and> th_executed (throttle_run throttleDelay
                          (four_calls t a0 a1 a2 a3 F0 F1 F2 F3 F4))
                        = [(t, a0), (t + 20, a3), (g, a2)]))
       \<and> length (th_executed (throttle_run throttleDelay
                    (four_calls t a0 a1 a2 a3 F0 F1 F2 F3 F4))) = 3"
proof -
  define d where "d = throttleDelay"
  have d: "d = 16" by (simp add: d_def throttleDelay_def)
  let ?ret = "four_calls_returned t a0 a1 a2 a3 F0 F1 F2 F3"
  let ?all = "four_calls t a0 a1 a2 a3 F0 F1 F2 F3 F4"
  from srt have b2: "\<forall>x\<in>set F2. x \<le> t + 10"
    and b3: "\<forall>x\<in>set F3. x \<le> t + 20"
    and b4: "\<forall>x\<in>set F4. t + 20 \<le> x"
    by (auto simp add: four_calls_def four_calls_returned_def sorted_append)
  define s1 :: "'a throttle_state" where
    "s1 = \<lparr>th_host = host_init, th_timeoutId = None, th_lastExecTime = t, th_executed = [(t, a0)]\<rparr>"
  define s2 :: "'a throttle_state" where
    "s2 = \<lparr>th_host = \<lparr>queue = [(1, t + 16, a1)], next_id = 2\<rparr>, th_timeoutId = Some 1,
            th_lastExecTime = t, th_executed = [(t, a0)]\<rparr>"
  define s3 :: "'a throttle_state" where
    "s3 = \<lparr>th_host = \<lparr>queue = [(2, t + 16, a2)], next_id = 3\<rparr>, th_timeoutId = Some 2,
            th_lastExecTime = t, th_executed = [(t, a0)]\<rparr>"
  have r: "throttle_run d ?ret =
      throttle_call d (t + 20) a3
        (fold throttle_timer_task F3 (throttle_call d (t + 10) a2
          (fold throttle_timer_task F2 (throttle_call d (t + 5) a1
            (fold throttle_timer_task F1 (throttle_call d t a0
              (fold throttle_timer_task F0 throttle_init)))))))"
    by (simp add: throttle_run_def four_calls_returned_def tasks_fold)
  have ra: "throttle_run d ?all = fold throttle_timer_task F4 (throttle_run d ?ret)"
    by (simp add: throttle_run_def four_calls_def tasks_fold)
  have f0: "fold throttle_timer_task F0 throttle_init = (throttle_init :: 'a throttle_state)"
    by (rule tasks_idle) (simp add: throttle_init_def host_init_def)
  have c1: "throttle_call d t a0 throttle_init = s1"
    using t by (simp add: call_leading throttle_init_def s1_def d_def)
  have f1: "fold throttle_timer_task F1 s1 = s1"
    by (rule tasks_idle) (simp add: s1_def host_init_def)
  have c2: "throttle_call d (t + 5) a1 s1 = s2"
    by (simp add: call_trailing s1_def s2_def d host_init_def)
  have "find (\<lambda>x. t + 16 \<le> x) F2 = None"
    using b2 by (auto simp add: find_None_iff)
  then have f2: "fold throttle_timer_task F2 s2 = s2"
    using tasks_one [of s2 "(1, t + 16, a1)" F2] by (simp add: s2_def timer_due_def)
  have c3: "throttle_call d (t + 10) a2 s2 = s3"
    by (simp add: call_trailing s2_def s3_def d timer_id_def)
  have f3: "fold throttle_timer_task F3 s3 =
      (case find (\<lambda>x. t + 16 \<le> x) F3 of None \<Rightarrow> s3 | Some f \<Rightarrow> timer_ran (2, t + 16, a2) f s3)"
    using tasks_one [of s3 "(2, t + 16, a2)" F3] by (simp add: s3_def timer_due_def)
  note ret = r [unfolded f0 c1 f1 c2 f2 c3 f3]
  show ?thesis
  proof (cases "find (\<lambda>x. t + 16 \<le> x) F3")
    case (Some f)
    then have f: "t + 16 \<le> f" "f \<le> t + 20"
      using b3 by (auto simp add: find_Some_iff)
    define s4 :: "'a throttle_state" where
      "s4 = \<lparr>th_host = \<lparr>queue = [(3, f + 16, a3)], next_id = 4\<rparr>, th_timeoutId = Some 3,
              th_lastExecTime = f, th_executed = [(t, a0), (f, a2)]\<rparr>"
    have c4: "throttle_call d (t + 20) a3 (timer_ran (2, t + 16, a2) f s3) = s4"
      using f by (simp add: call_trailing timer_ran_def s3_def s4_def d timer_args_def)
    from ret Some c4 have r4: "throttle_run d ?ret = s4" by simp
    have f4: "fold throttle_timer_task F4 s4 =
      (case find (\<lambda>x. f + 16 \<le> x) F4 of None \<Rightarrow> s4 | Some g \<Rightarrow> timer_ran (3, f + 16, a3) g s4)"
      using tasks_one [of s4 "(3, f + 16, a3)" F4] by (simp add: s4_def timer_due_def)
    from ra r4 f4 have fin: "throttle_run d ?all =
      (case find (\<lambda>x. f + 16 \<le> x) F4 of None \<Rightarrow> s4 | Some g \<Rightarrow> timer_ran (3, f + 16, a3) g s4)"
      by simp
    show ?thesis
    proof (cases "find (\<lambda>x. f + 16 \<le> x) F4")
      case None
      with fin quiet show ?thesis by (simp add: d_def s4_def)
    next
      case g: (Some g)
      from r4
      have x: "th_executed (throttle_run throttleDelay ?ret) = [(t, a0), (f, a2)]"
        by (simp add: d_def s4_def)
      from fin g
      have y: "th_executed (throttle_run throttleDelay ?all) = [(t, a0), (f, a2), (g, a3)]"
        by (simp add: d_def timer_ran_def s4_def timer_args_def)
      from Some g f x y show ?thesis by simp
    qed
  next
    case None
    define s4 :: "'a throttle_state" where
      "s4 = \<lparr>th_host = \<lparr>queue = [(2, t + 16, a2)], next_id = 3\<rparr>, th_timeoutId = Some 2,
              th_lastExecTime = t + 20, th_executed = [(t, a0), (t + 20, a3)]\<rparr>"
    have c4: "throttle_call d (t + 20) a3 s3 = s4"
      by (simp add: call_leading s3_def s4_def d)
    from ret None c4 have r4: "throttle_run d ?ret = s4" by simp
    have f4: "fold throttle_timer_task F4 s4 =
      (case find (\<lambda>x. t + 16 \<le> x) F4 of None \<Rightarrow> s4 | Some g \<Rightarrow> timer_ran (2, t + 16, a2) g s4)"
      using tasks_one [of s4 "(2, t + 16, a2)" F4] by (simp add: s4_def timer_due_def)
    from ra r4 f4 have fin: "throttle_run d ?all =
      (case find (\<lambda>x. t + 16 \<le> x) F4 of None \<Rightarrow> s4 | Some g \<Rightarrow> timer_ran (2, t + 16, a2) g s4)"
      by simp
    show ?thesis
    proof (cases F4)
      case Nil
      with fin quiet show ?thesis by (simp add: d_def s4_def)
    next
      case (Cons g G)
      with b4 have g: "t + 20 \<le> g" by simp
      with Cons have "find (\<lambda>x. t + 16 \<le> x) F4 = Some g" by simp
      with fin
      have y: "th_executed (throttle_run throttleDelay ?all) = [(t, a0), (t + 20, a3), (g, a2)]"
        by (simp add: d_def timer_ran_def s4_def timer_args_def)
      from r4
      have x: "th_executed (throttle_run throttleDelay ?ret) = [(t, a0), (t + 20, a3)]"
        by (simp add: d_def s4_def)
      from None Cons g x y show ?thesis by simp
    qed
  qed
qed

theorem throttle_four_calls_witness:
  "throttleDelay < 1700000000000
   \<and> sorted (map event_time
        (four_calls 1700000000000 ''a'' ''b'' ''c'' ''d''
           [] [1700000000002] [] [1700000000012, 1700000000019] [1700000000021, 1700000000040]))
   \<and> queue (th_host (throttle_run throttleDelay
        (four_calls 1700000000000 ''a'' ''b'' ''c'' ''d''
           [] [1700000000002] [] [1700000000012, 1700000000019] [1700000000021, 1700000000040])))
       = []
   \<and> th_executed (throttle_run throttleDelay
        (four_calls_returned 1700000000000 ''a'' ''b'' ''c'' ''d''
           [] [1700000000002] [] [1700000000012, 1700000000019]))
       = [(1700000000000, ''a''), (1700000000019, ''c'')]
   \<and> th_executed (throttle_run throttleDelay
        (four_calls 1700000000000 ''a'' ''b'' ''c'' ''d''
           [] [1700000000002] [] [1700000000012, 1700000000019] [1700000000021, 1700000000040]))
       = [(1700000000000, ''a''), (1700000000019, ''c''), (1700000000040, ''d'')]"
proof -
  have h1: "throttleDelay < 1700000000000" by (simp add: throttleDelay_def)
  have h2: "sorted (map event_time
        (four_calls 1700000000000 ''a'' ''b'' ''c'' ''d''
           [] [1700000000002] [] [1700000000012, 1700000000019] [1700000000021, 1700000000040]))"
    by code_simp
  have h3: "queue (th_host (throttle_run throttleDelay
        (four_calls 1700000000000 ''a'' ''b'' ''c'' ''d''
           [] [1700000000002] [] [1700000000012, 1700000000019] [1700000000021, 1700000000040])))
       = []"
    by code_simp
  from throttle_four_calls [OF h1 h2 h3]
  have "th_executed (throttle_run throttleDelay
        (four_calls_returned 1700000000000 ''a'' ''b'' ''c'' ''d''
           [] [1700000000002] [] [1700000000012, 1700000000019]))
       = [(1700000000000, ''a''), (1700000000019, ''c'')]
   \<and> th_executed (throttle_run throttleDelay
        (four_calls 1700000000000 ''a'' ''b'' ''c'' ''d''
           [] [1700000000002] [] [1700000000012, 1700000000019] [1700000000021, 1700000000040]))
       = [(1700000000000, ''a''), (1700000000019, ''c''), (1700000000040, ''d'')]"
    by simp
  with h1 h2 h3 show ?thesis by (intro conjI) simp_all
qed

section \<open>The capability probe\<close>

text \<open>
  C6, as the claim states it, fails for the probe of \<open>script.js\<close>: on a tablet whose
  user agent names it, \<open>isMobile\<close> and \<open>isTablet\<close> are both true.
\<close>

theorem script_capabilities_counterexample:
  "sj_isMobile (script_deviceCapabilities ipad_window)
   \<and> sj_isTablet (script_deviceCapabilities ipad_window)"
  unfolding script_deviceCapabilities_def ipad_window_def by code_simp

text \<open>
  C6, amended. In the responsive-navigation script the two predicates never hold
  together, and each call decides by the width of the window it is called in, whatever
  the window was at load; touch, hover and reduced motion are the values read at load.
  In \<open>script.js\<close> \<open>isMobile\<close> is the user agent test and \<open>isTablet\<close> the width test
  (768 to 1024, both ends included), both on the window at load.
\<close>

theorem capability_probe:
  "\<not> (isMobile (deviceCapabilities at_load) w \<and> isTablet (deviceCapabilities at_load) w)
   \<and> isMobile (deviceCapabilities at_load) w = (innerWidth w \<le> 768)
   \<and> isTablet (deviceCapabilities at_load) w = (768 < innerWidth w \<and> innerWidth w \<le> 1024)
   \<and> supportsTouch (deviceCapabilities at_load) = ontouchstart_in_window at_load
   \<and> supportsHover (deviceCapabilities at_load) = hover_matches at_load
   \<and> prefersReducedMotion (deviceCapabilities at_load) = reduced_motion_matches at_load
   \<and> sj_isMobile (script_deviceCapabilities at_load) = mobile_userAgent (userAgent at_load)
   \<and> sj_isTablet (script_deviceCapabilities at_load)
       = (768 \<le> innerWidth at_load \<and> innerWidth at_load \<le> 1024)"
  by (simp add: deviceCapabilities_def script_deviceCapabilities_def
      breakpoints_mobile_def breakpoints_tablet_def)

theorem capability_probe_witness:
  "isMobile (deviceCapabilities ipad_window) (ipad_window\<lparr>innerWidth := 600\<rparr>)
   \<and> \<not> isTablet (deviceCapabilities ipad_window) (ipad_window\<lparr>innerWidth := 600\<rparr>)
   \<and> \<not> isMobile (deviceCapabilities ipad_window) ipad_window
   \<and> isTablet (deviceCapabilities ipad_window) ipad_window
   \<and> supportsTouch (deviceCapabilities ipad_window)"
  using capability_probe [of ipad_window "ipad_window\<lparr>innerWidth := 600\<rparr>"]
        capability_probe [of ipad_window ipad_window]
  by (simp add: ipad_window_def)

section \<open>Reveal on scroll\<close>

text \<open>
  What one run of the callback does, for any batch: it calls \<open>animateElement\<close> once for
  every entry that reports its target intersecting, and stops watching those targets.
\<close>

lemma observer_callback_count:
  "count_list (animated (observer_callback ens s)) el = count_list (animated s) el + hits el ens"
  by (induction ens arbitrary: s) (simp_all add: hits_def unobserve_def animateElement_def)

lemma observer_callback_observed:
  "observed (observer_callback ens s) = filter (\<lambda>x. hits x ens = 0) (observed s)"
proof (induction ens arbitrary: s)
  case Nil
  show ?case by (simp add: hits_def)
next
  case (Cons en ens)
  have "filter (\<lambda>x. hits x ens = 0) (removeAll (target en) ys)
      = filter (\<lambda>x. x \<noteq> target en \<and> hits x ens = 0) ys" for ys
    by (induction ys) auto
  then show ?case
    by (auto simp add: Cons.IH hits_def unobserve_def animateElement_def intro: filter_cong)
qed

lemma observer_callback_animated:
  "set (animated (observer_callback ens s)) = set (animated s) \<union> {x. 0 < hits x ens}"
  by (induction ens arbitrary: s) (auto simp add: hits_def unobserve_def animateElement_def)

text \<open>Over a session the calls add up, whatever the batches are.\<close>

lemma session_count_any:
  "count_list (animated (session bs s)) el
     = count_list (animated s) el + sum_list (map (hits el) bs)"
  by (induction bs arbitrary: s) (simp_all add: session_def observer_callback_count)

text \<open>
  Batches as the observer forms them bring no entry for an element that is not watched,
  so the calls for an element are those of the first batch that reports it intersecting.
\<close>

lemma hits_unwatched:
  "list_all (\<lambda>en. target en \<in> set (observed s)) batch \<Longrightarrow> el \<notin> set (observed s) \<Longrightarrow>
   hits el batch = 0"
  by (auto simp add: hits_def list_all_iff filter_empty_conv)

lemma session_unwatched:
  "hosted bs s \<Longrightarrow> el \<notin> set (observed s) \<Longrightarrow>
   count_list (animated (session bs s)) el = count_list (animated s) el"
proof (induction bs arbitrary: s)
  case Nil
  show ?case by (simp add: session_def)
next
  case (Cons b bs)
  from Cons.prems have h: "hits el b = 0" using hits_unwatched [of s b el] by simp
  from Cons.prems have "el \<notin> set (observed (observer_callback b s))"
    by (simp add: observer_callback_observed)
  with Cons.prems Cons.IH [of "observer_callback b s"]
  have "count_list (animated (session bs (observer_callback b s))) el
      = count_list (animated (observer_callback b s)) el" by simp
  with h show ?case by (simp add: session_def observer_callback_count)
qed

lemma session_count:
  "hosted bs s \<Longrightarrow>
   count_list (animated (session bs s)) el = count_list (animated s) el + first_hits el bs"
proof (induction bs arbitrary: s)
  case Nil
  show ?case by (simp add: session_def)
next
  case (Cons b bs)
  from Cons.prems have hb: "hosted bs (observer_callback b s)" by simp
  show ?case
  proof (cases "0 < hits el b")
    case True
    then have "el \<notin> set (observed (observer_callback b s))"
      by (simp add: observer_callback_observed)
    from session_unwatched [OF hb this] True show ?thesis
      by (simp add: session_def observer_callback_count)
  next
    case False
    with Cons.IH [OF hb] show ?thesis
      by (simp add: session_def observer_callback_count)
  qed
qed

lemma session_disjoint:
  "set (animated s) \<inter> set (observed s) = {} \<Longrightarrow>
   set (animated (session bs s)) \<inter> set (observed (session bs s)) = {}"
proof (induction bs arbitrary: s)
  case Nil
  then show ?case by (simp add: session_def)
next
  case (Cons b bs)
  from Cons.prems
  have "set (animated (observer_callback b s)) \<inter> set (observed (observer_callback b s)) = {}"
    by (auto simp add: observer_callback_observed observer_callback_animated)
  from Cons.IH [OF this] show ?case by (simp add: session_def)
qed

lemma first_hits_once:
  "list_all (\<lambda>b. hits el b \<le> 1) bs \<Longrightarrow> first_hits el bs \<le> 1"
  by (induction bs) auto

lemma first_hits_some:
  "(0 < first_hits el bs) = (\<exists>b \<in> set bs. 0 < hits el b)"
  by (induction bs) auto

lemma observeElements_fold:
  "distinct (observed s) \<Longrightarrow>
   distinct (observed (fold observe els s))
   \<and> set (observed (fold observe els s)) = set (observed s) \<union> set els
   \<and> animated (fold observe els s) = animated s"
  by (induction els arbitrary: s) (auto simp: observe_def)

lemma ScrollAnimations_new_fresh:
  "set (observed (ScrollAnimations_new reduced els)) = (if reduced then {} else set els)
   \<and> animated (ScrollAnimations_new reduced els) = []"
  using observeElements_fold [of "\<lparr>observed = [], animated = []\<rparr>" els]
  by (simp add: ScrollAnimations_new_def observeElements_def)

text \<open>
  C8, as the claim states it, fails for a batch that reports one element intersecting
  twice: the callback does not check whether the target is still watched, so it animates
  the element once for each such entry. Here the element entered the viewport, left it
  and entered again before the callback ran.
\<close>

theorem reveal_at_most_once_counterexample:
  "hosted [[\<lparr>target = 0, isIntersecting = True\<rparr>, \<lparr>target = 0, isIntersecting = False\<rparr>,
            \<lparr>target = 0, isIntersecting = True\<rparr>]] (ScrollAnimations_new False [0])
   \<and> animated (session
       [[\<lparr>target = 0, isIntersecting = True\<rparr>, \<lparr>target = 0, isIntersecting = False\<rparr>,
         \<lparr>target = 0, isIntersecting = True\<rparr>]] (ScrollAnimations_new False [0])) = [0, 0]
   \<and> \<not> count_list (animated (session
       [[\<lparr>target = 0, isIntersecting = True\<rparr>, \<lparr>target = 0, isIntersecting = False\<rparr>,
         \<lparr>target = 0, isIntersecting = True\<rparr>]] (script_ScrollAnimations_new [0]))) 0 \<le> 1"
  by code_simp

text \<open>
  C8, amended. The batches are as the observer forms them: each holds only entries of
  targets watched when it is delivered. Then \<open>animateElement\<close> is called for an element
  once for each entry of the first batch that reports it intersecting, and never for a
  later batch, because the element is no longer watched after that batch. So when no
  batch reports the element intersecting more than once, the element is animated at
  most once in the session: once if some batch reports it intersecting, never
  otherwise. Only elements the controller watches are animated (none when the
  responsive-navigation script finds the visitor prefers reduced motion, \<open>reduced\<close>),
  and an element that has been animated is no longer watched. The controller of
  \<open>script.js\<close> is the same with \<open>reduced\<close> false.
\<close>

theorem reveal_at_most_once:
  assumes "hosted bs (ScrollAnimations_new reduced els)"
  shows "count_list (animated (session bs (ScrollAnimations_new reduced els))) el
           = first_hits el bs
       \<and> (list_all (\<lambda>b. hits el b \<le> 1) bs \<longrightarrow>
            count_list (animated (session bs (ScrollAnimations_new reduced els))) el
              = (if \<exists>b \<in> set bs. 0 < hits el b then 1 else 0)
            \<and> count_list (animated (session bs (ScrollAnimations_new reduced els))) el \<le> 1)
       \<and> (0 < first_hits el bs \<longrightarrow> \<not> reduced \<and> el \<in> set els)
       \<and> \<not> (el \<in> set (animated (session bs (ScrollAnimations_new reduced els)))
            \<and> el \<in> set (observed (session bs (ScrollAnimations_new reduced els))))
       \<and> script_ScrollAnimations_new els = ScrollAnimations_new False els"
proof -
  let ?s = "ScrollAnimations_new reduced els"
  have fresh: "set (observed ?s) = (if reduced then {} else set els)" "animated ?s = []"
    using ScrollAnimations_new_fresh [of reduced els] by simp_all
  have c: "count_list (animated (session bs ?s)) el = first_hits el bs"
    using session_count [OF assms, of el] fresh by simp
  have o: "list_all (\<lambda>b. hits el b \<le> 1) bs \<longrightarrow>
            count_list (animated (session bs ?s)) el
              = (if \<exists>b \<in> set bs. 0 < hits el b then 1 else 0)
            \<and> count_list (animated (session bs ?s)) el \<le> 1"
  proof
    assume a: "list_all (\<lambda>b. hits el b \<le> 1) bs"
    from first_hits_once [OF a] first_hits_some [of el bs] c
    show "count_list (animated (session bs ?s)) el
              = (if \<exists>b \<in> set bs. 0 < hits el b then 1 else 0)
            \<and> count_list (animated (session bs ?s)) el \<le> 1"
      by (cases "\<exists>b \<in> set bs. 0 < hits el b") auto
  qed
  have w: "0 < first_hits el bs \<longrightarrow> \<not> reduced \<and> el \<in> set els"
  proof
    assume p: "0 < first_hits el bs"
    have "el \<in> set (observed ?s)"
    proof (rule ccontr)
      assume "el \<notin> set (observed ?s)"
      from session_unwatched [OF assms this] c fresh p show False by simp
    qed
    with fresh show "\<not> reduced \<and> el \<in> set els" by (simp split: if_splits)
  qed
  have d: "\<not> (el \<in> set (animated (session bs ?s)) \<and> el \<in> set (observed (session bs ?s)))"
    using session_disjoint [of ?s bs] fresh by auto
  have e: "script_ScrollAnimations_new els = ScrollAnimations_new False els"
    by (simp add: script_ScrollAnimations_new_def ScrollAnimations_new_def)
  from c o w d e show ?thesis by (intro conjI)
qed

theorem reveal_at_most_once_witness:
  "hosted [[\<lparr>target = 1, isIntersecting = False\<rparr>, \<lparr>target = 2, isIntersecting = True\<rparr>],
           [\<lparr>target = 1, isIntersecting = True\<rparr>, \<lparr>target = 1, isIntersecting = False\<rparr>],
           [\<lparr>target = 3, isIntersecting = False\<rparr>]]
      (ScrollAnimations_new False [1, 2, 3, 2])
   \<and> list_all (\<lambda>b. hits 1 b \<le> 1)
          [[\<lparr>target = 1, isIntersecting = False\<rparr>, \<lparr>target = 2, isIntersecting = True\<rparr>],
           [\<lparr>target = 1, isIntersecting = True\<rparr>, \<lparr>target = 1, isIntersecting = False\<rparr>],
           [\<lparr>target = 3, isIntersecting = False\<rparr>]]
   \<and> count_list (animated (session
          [[\<lparr>target = 1, isIntersecting = False\<rparr>, \<lparr>target = 2, isIntersecting = True\<rparr>],
           [\<lparr>target = 1, isIntersecting = True\<rparr>, \<lparr>target = 1, isIntersecting = False\<rparr>],
           [\<lparr>target = 3, isIntersecting = False\<rparr>]]
      (ScrollAnimations_new False [1, 2, 3, 2]))) 1 \<le> 1
   \<and> count_list (animated (session
          [[\<lparr>target = 1, isIntersecting = False\<rparr>, \<lparr>target = 2, isIntersecting = True\<rparr>],
           [\<lparr>target = 1, isIntersecting = True\<rparr>, \<lparr>target = 1, isIntersecting = False\<rparr>],
           [\<lparr>target = 3, isIntersecting = False\<rparr>]]
      (ScrollAnimations_new False [1, 2, 3, 2]))) 1 = 1"
proof -
  let ?bs = "[[\<lparr>target = 1, isIntersecting = False\<rparr>, \<lparr>target = 2, isIntersecting = True\<rparr>],
           [\<lparr>target = 1, isIntersecting = True\<rparr>, \<lparr>target = 1, isIntersecting = False\<rparr>],
           [\<lparr>target = 3, isIntersecting = False\<rparr>]]"
  have h: "hosted ?bs (ScrollAnimations_new False [1, 2, 3, 2])" by code_simp
  have o: "list_all (\<lambda>b. hits 1 b \<le> 1) ?bs" by code_simp
  have v: "first_hits 1 ?bs = 1" by code_simp
  note T = reveal_at_most_once [OF h, of 1]
  from T have c: "count_list (animated (session ?bs (ScrollAnimations_new False [1, 2, 3, 2]))) 1
      = first_hits 1 ?bs" by (rule conjunct1)
  from T o have l: "count_list (animated (session ?bs (ScrollAnimations_new False [1, 2, 3, 2]))) 1 \<le> 1"
    by blast
  from h o l trans [OF c v] show ?thesis by (intro conjI)
qed

section \<open>Numbers through strings\<close>

lemma digit_val_digit_char: "d < 10 \<Longrightarrow> digit_val (digit_char d) = Some d"
proof -
  assume "d < 10"
  then have "d \<in> {0, 1, 2, 3, 4, 5, 6, 7, 8, 9}" by auto
  then show ?thesis by (auto simp: digit_val_def digit_char_def)
qed

lemma digit_char_zero: "d < 10 \<Longrightarrow> (digit_char d = CHR ''0'') = (d = 0)"
proof -
  assume "d < 10"
  then have "d \<in> {0, 1, 2, 3, 4, 5, 6, 7, 8, 9}" by auto
  then show ?thesis by (auto simp: digit_char_def)
qed

text \<open>Reading the digits of \<open>n\<close> back gives \<open>n\<close>.\<close>

lemma parse_show_nat:
  "parse_digits digit_val 10 (show_nat n @ rest) acc
     = parse_digits digit_val 10 rest (acc * 10 ^ length (show_nat n) + n)"
proof (induction n arbitrary: rest acc rule: show_nat.induct)
  case (1 n)
  show ?case
  proof (cases "n < 10")
    case True
    then show ?thesis by (simp add: show_nat.simps [of n] digit_val_digit_char)
  next
    case False
    have m: "n mod 10 < 10" by simp
    have "parse_digits digit_val 10 (show_nat n @ rest) acc
        = parse_digits digit_val 10 (show_nat (n div 10) @ (digit_char (n mod 10) # rest)) acc"
      using False by (simp add: show_nat.simps [of n])
    also have "\<dots> = parse_digits digit_val 10 (digit_char (n mod 10) # rest)
                      (acc * 10 ^ length (show_nat (n div 10)) + n div 10)"
      using "1.IH" [OF False] by simp
    also have "\<dots> = parse_digits digit_val 10 rest
                      ((acc * 10 ^ length (show_nat (n div 10)) + n div 10) * 10 + n mod 10)"
      by (simp add: digit_val_digit_char [OF m])
    also have "(acc * 10 ^ length (show_nat (n div 10)) + n div 10) * 10 + n mod 10
             = acc * 10 ^ length (show_nat n) + n"
      using False by (simp add: show_nat.simps [of n] algebra_simps)
    finally show ?thesis .
  qed
qed

text \<open>The digits of \<open>n\<close> start with a digit, which is \<open>0\<close> only for \<open>n = 0\<close>.\<close>

lemma show_nat_shape:
  "\<exists>d ds. show_nat n = digit_char d # ds \<and> d < 10 \<and> (d = 0) = (n = 0) \<and> (n = 0 \<longrightarrow> ds = [])"
proof (induction n rule: show_nat.induct)
  case (1 n)
  show ?case
  proof (cases "n < 10")
    case True
    then show ?thesis by (auto simp add: show_nat.simps [of n] intro: exI [of _ n])
  next
    case False
    from "1.IH" [OF False] obtain d ds where
      "show_nat (n div 10) = digit_char d # ds" "d < 10" "(d = 0) = (n div 10 = 0)" by auto
    then show ?thesis using False
      by (auto simp add: show_nat.simps [of n])
  qed
qed

text \<open>
  What \<open>close\<close> reads back from the \<open>top\<close> that \<open>open\<close> wrote for a scroll offset \<open>y\<close>:
  minus the whole part of \<open>y\<close>.
\<close>

lemma parseInt_top:
  assumes "0 \<le> y"
  shows "parseInt (''-'' @ number_to_string y @ ''px'') = Some (- \<lfloor>y\<rfloor>)"
proof -
  define n where "n = nat \<lfloor>y\<rfloor>"
  define rest where
    "rest = (if y - of_nat n = 0 then [] else ''.'' @ frac_digits 20 (y - of_nat n)) @ ''px''"
  have abs: "\<bar>y\<bar> = y" using assms by simp
  have str: "number_to_string y @ ''px'' = show_nat n @ rest"
    using assms by (simp add: number_to_string_def Let_def n_def rest_def abs)
  obtain c cs where rest_eq: "rest = c # cs"
    and c: "digit_val c = None" "c \<noteq> CHR ''x''" "c \<noteq> CHR ''X''"
    by (cases "y - of_nat n = 0") (auto simp: rest_def digit_val_def)
  obtain d ds where sh: "show_nat n = digit_char d # ds"
    and d: "d < 10" "(d = 0) = (n = 0)" "n = 0 \<longrightarrow> ds = []"
    using show_nat_shape [of n] by auto
  have nohex: "take 2 (show_nat n @ rest) \<noteq> ''0x'' \<and> take 2 (show_nat n @ rest) \<noteq> ''0X''"
  proof (cases "n = 0")
    case True
    then show ?thesis using sh d c rest_eq by (simp add: digit_char_zero)
  next
    case False
    then show ?thesis using sh d by (simp add: digit_char_zero)
  qed
  have pn: "parse_number digit_val 10 (show_nat n @ rest) = Some n"
    using parse_show_nat [of n rest 0] sh d c rest_eq
    by (simp add: parse_number_def digit_val_digit_char)
  have "parseInt (''-'' @ show_nat n @ rest) = Some (- int n)"
    using nohex pn by (simp add: parseInt_def is_space_def Let_def)
  then show ?thesis using str assms by (simp add: n_def)
qed

section \<open>What open and close leave behind\<close>

lemmas stmt_defs =
  pure_stmt_def if_then_def with_navbar_def with_navToggle_def with_navList_def console_log_def

lemmas core_defs =
  core_def closed_c_def opened_c_def list_active_def toggle_active_def menu_present_def
  scroll_locked_def breakpoints_mobile_def

lemma is_mobile_width [simp]: "is_mobile w = (innerWidth (win w) \<le> 768)"
  by (simp add: is_mobile_def deviceCapabilities_def breakpoints_mobile_def)

lemma reduced_motion_load [simp]: "reduced_motion w = reduced_motion_matches (load_window w)"
  by (simp add: reduced_motion_def deviceCapabilities_def)

lemma close_nav_result:
  assumes "navList w = Some l" "navToggle w = Some t"
  shows "\<exists>w'. close_nav w = Ok w'
     \<and> isOpen w' = False
     \<and> navList w' = Some (l\<lparr>nl_classList := nl_classList l - {''active''}\<rparr>)
     \<and> navToggle w' = Some (t\<lparr>tg_classList := tg_classList t - {''active''}\<rparr>)
     \<and> navbar w' = navbar w \<and> listeners w' = listeners w \<and> load_window w' = load_window w
     \<and> innerWidth (win w') = innerWidth (win w)
     \<and> body w' = (if is_mobile w
                   then (body w)\<lparr>bs_position := [], bs_top := [], bs_overflow := [], bs_width := []\<rparr>
                   else body w)
     \<and> scrollY (win w') = (if is_mobile w
          then scrollY (scrollTo (map_option (\<lambda>n. n * - 1)
                 (parseInt (if bs_top (body w) = [] then ''0'' else bs_top (body w)))) (win w))
          else scrollY (win w))"
  using assms by (simp add: close_nav_def stmt_defs unlock_body_def Let_def scrollTo_def)

lemma open_nav_result:
  assumes "navList w = Some l" "navToggle w = Some t"
  shows "\<exists>w' items. open_nav w = Ok w'
     \<and> isOpen w' = True
     \<and> navList w' = Some (l\<lparr>nl_classList := insert ''active'' (nl_classList l), nl_items := items\<rparr>)
     \<and> length items = length (nl_items l)
     \<and> navToggle w' = Some (t\<lparr>tg_classList := insert ''active'' (tg_classList t)\<rparr>)
     \<and> navbar w' = navbar w \<and> listeners w' = listeners w \<and> load_window w' = load_window w
     \<and> win w' = win w
     \<and> body w' = (if is_mobile w
                   then (body w)\<lparr>bs_overflow := ''hidden'', bs_position := ''fixed'',
                          bs_top := ''-'' @ number_to_string (scrollY (win w)) @ ''px'',
                          bs_width := ''100%''\<rparr>
                   else body w)"
proof (cases "reduced_motion w")
  case True
  then show ?thesis using assms
    by (intro exI [of _ "world_of (open_nav w)"] exI [of _ "nl_items l"])
       (simp add: open_nav_def stmt_defs lock_body_def animateLinksIn_def Let_def)
next
  case False
  then show ?thesis using assms
    by (intro exI [of _ "world_of (open_nav w)"]
          exI [of _ "map (\<lambda>li. li\<lparr>li_opacity := ''0'', li_transform := ''translateX(-20px)''\<rparr>)
                      (nl_items l)"])
       (simp add: open_nav_def stmt_defs lock_body_def animateLinksIn_def Let_def)
qed

section \<open>The effect of every listener on the menu state\<close>

lemma core_uncaught [simp]: "core (w\<lparr>uncaught := u\<rparr>) = core w"
  by (simp add: core_defs)

lemma core_resize_pending [simp]: "core (w\<lparr>resize_pending := b\<rparr>) = core w"
  by (simp add: core_defs)

lemma core_scroll_pending [simp]: "core (w\<lparr>scroll_pending := b\<rparr>) = core w"
  by (simp add: core_defs)

lemma core_timers [simp]: "core (w\<lparr>timers := ts\<rparr>) = core w"
  by (simp add: core_defs)

lemma menu_present_resize_pending [simp]:
  "menu_present (w\<lparr>resize_pending := b\<rparr>) = menu_present w"
  by (simp add: menu_present_def)

lemma core_run_listener:
  "core (world_of (h w)) = core w \<Longrightarrow> core (run_listener h w) = core w"
  by (cases "h w") (simp_all add: run_listener_def)

text \<open>Four methods leave the menu state alone.\<close>

lemma core_updateActiveLink: "core (world_of (updateActiveLink w)) = core w"
  by (simp add: updateActiveLink_def core_defs)

lemma core_scrollToSection: "core (world_of (scrollToSection href w)) = core w"
  by (simp add: scrollToSection_def core_defs split: query_result.splits option.splits)

lemma core_animateLinksIn: "core (world_of (animateLinksIn w)) = core w"
  by (simp add: animateLinksIn_def core_defs split: option.splits)

lemma core_handleScroll: "core (world_of (handleScroll w)) = core w"
  by (simp add: handleScroll_def Let_def stmt_defs updateActiveLink_def core_defs
      split: option.splits)

lemma core_timer_callback: "core (world_of (timer_callback a w)) = core w"
  by (cases a)
     (simp_all add: timer_callback_def scrollToSection_def core_defs
        split: query_result.splits option.splits)

text \<open>\<open>close\<close>, \<open>open\<close> and \<open>toggle\<close>.\<close>

lemma core_close_nav:
  assumes "menu_present w"
  shows "core (run_listener close_nav w) = closed_c (core w)"
proof -
  from assms obtain l t where lt: "navList w = Some l" "navToggle w = Some t"
    by (auto simp: menu_present_def)
  from close_nav_result [OF lt] obtain w' where
    "close_nav w = Ok w'" "isOpen w' = False"
    "navList w' = Some (l\<lparr>nl_classList := nl_classList l - {''active''}\<rparr>)"
    "navToggle w' = Some (t\<lparr>tg_classList := tg_classList t - {''active''}\<rparr>)"
    "listeners w' = listeners w"
    "innerWidth (win w') = innerWidth (win w)"
    "body w' = (if is_mobile w
                   then (body w)\<lparr>bs_position := [], bs_top := [], bs_overflow := [], bs_width := []\<rparr>
                   else body w)"
    by blast
  then show ?thesis using lt by (simp add: run_listener_def core_defs)
qed

lemma core_open_nav:
  assumes "menu_present w"
  shows "core (run_listener open_nav w) = opened_c (core w)"
proof -
  from assms obtain l t where lt: "navList w = Some l" "navToggle w = Some t"
    by (auto simp: menu_present_def)
  from open_nav_result [OF lt] obtain w' items where
    "open_nav w = Ok w'" "isOpen w' = True"
    "navList w' = Some (l\<lparr>nl_classList := insert ''active'' (nl_classList l), nl_items := items\<rparr>)"
    "navToggle w' = Some (t\<lparr>tg_classList := insert ''active'' (tg_classList t)\<rparr>)"
    "listeners w' = listeners w"
    "win w' = win w"
    "body w' = (if is_mobile w
                   then (body w)\<lparr>bs_overflow := ''hidden'', bs_position := ''fixed'',
                          bs_top := ''-'' @ number_to_string (scrollY (win w)) @ ''px'',
                          bs_width := ''100%''\<rparr>
                   else body w)"
    by blast
  then show ?thesis using lt by (simp add: run_listener_def core_defs)
qed

lemma core_toggle:
  "menu_present w \<Longrightarrow>
   core (run_listener toggle w) = (if isOpen w then closed_c (core w) else opened_c (core w))"
  using core_close_nav [of w] core_open_nav [of w]
  by (simp add: toggle_def run_listener_def)

text \<open>Effects compose, and keep the elements and the listeners.\<close>

lemma menu_effect_refl: "menu_effect c c"
  by (simp add: menu_effect_def)

lemma menu_effect_trans: "menu_effect c c' \<Longrightarrow> menu_effect c' c'' \<Longrightarrow> menu_effect c c''"
  by (cases c) (auto simp add: menu_effect_def closed_c_def opened_c_def)

lemma menu_effect_present:
  "menu_effect (core w) (core w') \<Longrightarrow> menu_present w' = menu_present w"
  by (auto simp add: menu_effect_def core_def closed_c_def opened_c_def)

lemma close_effect_menu: "close_effect c c' \<Longrightarrow> menu_effect c c'"
  by (auto simp: close_effect_def menu_effect_def)

lemma close_effect_refl: "close_effect c c"
  by (simp add: close_effect_def)

lemma close_effect_trans: "close_effect c c' \<Longrightarrow> close_effect c' c'' \<Longrightarrow> close_effect c c''"
  by (cases c) (auto simp add: close_effect_def closed_c_def)

text \<open>The handlers that may close the menu, and never open it.\<close>

lemma core_handleResize:
  assumes "menu_present w"
  shows "core (run_listener handleResize w)
           = (if \<not> is_mobile w \<and> isOpen w then closed_c (core w) else core w)"
proof -
  from assms obtain l t where lt: "navList w = Some l" "navToggle w = Some t"
    by (auto simp: menu_present_def)
  show ?thesis
  proof (cases "\<not> is_mobile w \<and> isOpen w")
    case True
    from close_nav_result [OF lt] obtain w' where w':
      "close_nav w = Ok w'" "isOpen w' = False"
      "navList w' = Some (l\<lparr>nl_classList := nl_classList l - {''active''}\<rparr>)"
      "navToggle w' = Some (t\<lparr>tg_classList := tg_classList t - {''active''}\<rparr>)"
      "listeners w' = listeners w"
      "innerWidth (win w') = innerWidth (win w)"
      "body w' = (if is_mobile w
                   then (body w)\<lparr>bs_position := [], bs_top := [], bs_overflow := [], bs_width := []\<rparr>
                   else body w)"
      by blast
    then show ?thesis using True lt
      by (simp add: handleResize_def stmt_defs run_listener_def core_defs)
  next
    case False
    then show ?thesis using lt
      by (auto simp add: handleResize_def stmt_defs run_listener_def core_defs)
  qed
qed

lemma close_link_click:
  assumes "menu_present w"
  shows "close_effect (core w) (core (run_listener (link_click i) w))"
proof (cases "isOpen w \<and> is_mobile w")
  case False
  then show ?thesis by (auto simp add: link_click_def run_listener_def close_effect_def)
next
  case True
  show ?thesis
  proof (cases "ln_href (navLinks w ! i)")
    case None
    then show ?thesis using True
      by (simp add: link_click_def run_listener_def close_effect_def)
  next
    case (Some href)
    from assms obtain l t where lt: "navList w = Some l" "navToggle w = Some t"
      by (auto simp: menu_present_def)
    from close_nav_result [OF lt] obtain w' where w':
      "close_nav w = Ok w'" "isOpen w' = False"
      "navList w' = Some (l\<lparr>nl_classList := nl_classList l - {''active''}\<rparr>)"
      "navToggle w' = Some (t\<lparr>tg_classList := tg_classList t - {''active''}\<rparr>)"
      "listeners w' = listeners w"
      "innerWidth (win w') = innerWidth (win w)"
      "body w' = (if is_mobile w
                   then (body w)\<lparr>bs_position := [], bs_top := [], bs_overflow := [], bs_width := []\<rparr>
                   else body w)"
      by blast
    then have "core (run_listener (link_click i) w) = closed_c (core w)"
      using True Some lt
      by (simp add: link_click_def stmt_defs run_listener_def core_defs)
    then show ?thesis by (simp add: close_effect_def)
  qed
qed

lemma close_document_click:
  assumes "menu_present w"
  shows "close_effect (core w) (core (run_listener (document_click inside) w))"
proof (cases "navbar w")
  case None
  then show ?thesis by (simp add: document_click_def run_listener_def close_effect_def)
next
  case (Some nb)
  then have "core (run_listener (document_click inside) w)
      = (if isOpen w \<and> is_mobile w \<and> \<not> inside then closed_c (core w) else core w)"
    using core_close_nav [OF assms]
    by (auto simp add: document_click_def run_listener_def)
  then show ?thesis by (simp add: close_effect_def)
qed

lemma close_document_keydown:
  assumes "menu_present w"
  shows "close_effect (core w) (core (run_listener (document_keydown key) w))"
proof -
  have "core (run_listener (document_keydown key) w)
      = (if key = ''Escape'' \<and> isOpen w then closed_c (core w) else core w)"
    using core_close_nav [OF assms]
    by (auto simp add: document_keydown_def run_listener_def)
  then show ?thesis by (simp add: close_effect_def)
qed

lemma close_method_body:
  assumes "menu_present w" "m \<noteq> M_toggle" "m \<noteq> M_open"
  shows "close_effect (core w) (core (run_listener (method_body m) w))"
proof (cases m)
  case M_toggle
  then show ?thesis using assms by simp
next
  case M_open
  then show ?thesis using assms by simp
next
  case M_close
  then show ?thesis using core_close_nav [OF assms(1)] by (simp add: method_body_def close_effect_def)
next
  case M_handleResize
  then show ?thesis using core_handleResize [OF assms(1)] by (simp add: method_body_def close_effect_def)
next
  case M_handleScroll
  then show ?thesis using core_run_listener [of handleScroll w] core_handleScroll [of w]
    by (simp add: method_body_def close_effect_def)
next
  case M_updateActiveLink
  then show ?thesis using core_run_listener [of updateActiveLink w] core_updateActiveLink [of w]
    by (simp add: method_body_def close_effect_def)
next
  case (M_scrollToSection href)
  then show ?thesis
    using core_run_listener [of "scrollToSection href" w] core_scrollToSection [of href w]
    by (simp add: method_body_def close_effect_def)
next
  case M_animateLinksIn
  then show ?thesis using core_run_listener [of animateLinksIn w] core_animateLinksIn [of w]
    by (simp add: method_body_def close_effect_def)
qed

text \<open>The listeners of one event run one after the other.\<close>

lemma fold_listeners_close:
  assumes h: "\<And>l h w'. react l = Some h \<Longrightarrow> menu_present w' \<Longrightarrow>
                 close_effect (core w') (core (run_listener h w'))"
    and p: "menu_present w"
  shows "close_effect (core w)
           (core (fold (\<lambda>l w'. (case react l of None \<Rightarrow> w' | Some h \<Rightarrow> run_listener h w')) ls w))"
  using p
proof (induction ls arbitrary: w)
  case Nil
  show ?case by (simp add: close_effect_refl)
next
  case (Cons l ls)
  show ?case
  proof (cases "react l")
    case None
    then show ?thesis using Cons.IH [OF Cons.prems] by simp
  next
    case (Some hd)
    have e1: "close_effect (core w) (core (run_listener hd w))"
      using h [OF Some Cons.prems] .
    have p1: "menu_present (run_listener hd w)"
      using menu_effect_present [OF close_effect_menu [OF e1]] Cons.prems by simp
    show ?thesis
      using close_effect_trans [OF e1 Cons.IH [OF p1]] Some by simp
  qed
qed

lemma run_listeners_close:
  assumes "\<And>l h w'. react l = Some h \<Longrightarrow> menu_present w' \<Longrightarrow>
                 close_effect (core w') (core (run_listener h w'))"
    and "menu_present w"
  shows "close_effect (core w) (core (run_listeners react w))"
  unfolding run_listeners_def using assms by (rule fold_listeners_close)

lemma fold_listeners_effect:
  assumes h: "\<And>l h w'. react l = Some h \<Longrightarrow> menu_present w' \<Longrightarrow>
                 menu_effect (core w') (core (run_listener h w'))"
    and p: "menu_present w"
  shows "menu_effect (core w)
           (core (fold (\<lambda>l w'. (case react l of None \<Rightarrow> w' | Some h \<Rightarrow> run_listener h w')) ls w))"
  using p
proof (induction ls arbitrary: w)
  case Nil
  show ?case by (simp add: menu_effect_refl)
next
  case (Cons l ls)
  show ?case
  proof (cases "react l")
    case None
    then show ?thesis using Cons.IH [OF Cons.prems] by simp
  next
    case (Some hd)
    have e1: "menu_effect (core w) (core (run_listener hd w))"
      using h [OF Some Cons.prems] .
    have p1: "menu_present (run_listener hd w)"
      using menu_effect_present [OF e1] Cons.prems by simp
    show ?thesis
      using menu_effect_trans [OF e1 Cons.IH [OF p1]] Some by simp
  qed
qed

lemma run_listeners_effect:
  assumes "\<And>l h w'. react l = Some h \<Longrightarrow> menu_present w' \<Longrightarrow>
                 menu_effect (core w') (core (run_listener h w'))"
    and "menu_present w"
  shows "menu_effect (core w) (core (run_listeners react w))"
  unfolding run_listeners_def using assms by (rule fold_listeners_effect)

lemma document_click_close:
  assumes "menu_present w"
  shows "close_effect (core w) (core (run_listeners (document_react inside) w))"
proof (rule run_listeners_close [OF _ assms])
  fix l h w'
  assume "document_react inside l = Some h" "menu_present w'"
  then show "close_effect (core w') (core (run_listener h w'))"
    using close_document_click [of w' inside] by (auto simp: document_react_def split: if_splits)
qed

text \<open>
  Every event but a click on the toggle button, \<open>toggle()\<close> and \<open>open()\<close> either leaves
  the menu state as it is or changes it as \<open>close\<close> does; a resize sets the width and
  nothing else.
\<close>

lemma step_close_effect:
  assumes p: "menu_present w" and n: "\<not> calls_open ev"
  shows "(case ev of
            Resize width \<Rightarrow> core (step ev w) = resized_c width (core w)
          | _ \<Rightarrow> close_effect (core w) (core (step ev w)))"
proof (cases ev)
  case Click_toggle
  then show ?thesis using n by (simp add: calls_open_def)
next
  case (Click_link i)
  have a: "close_effect (core w) (core (run_listeners (link_react i) w))"
  proof (rule run_listeners_close [OF _ p])
    fix l h w'
    assume "link_react i l = Some h" "menu_present w'"
    then show "close_effect (core w') (core (run_listener h w'))"
      using close_link_click [of w' i] core_run_listener [of "scrollToSection href" w' for href]
        core_scrollToSection [of _ w']
      by (auto simp: link_react_def close_effect_def split: listener.splits if_splits)
  qed
  have p1: "menu_present (run_listeners (link_react i) w)"
    using menu_effect_present [OF close_effect_menu [OF a]] p by simp
  show ?thesis
    using Click_link close_effect_trans [OF a document_click_close [OF p1]] close_effect_refl
    by (simp add: step_def)
next
  case (Click_elsewhere inside)
  then show ?thesis using document_click_close [OF p] by (simp add: step_def)
next
  case (Keydown key)
  have b: "close_effect (core w) (core (run_listeners (keydown_react key) w))"
  proof (rule run_listeners_close [OF _ p])
    fix l h w'
    assume "keydown_react key l = Some h" "menu_present w'"
    then show "close_effect (core w') (core (run_listener h w'))"
      using close_document_keydown [of w' key] by (auto simp: keydown_react_def split: if_splits)
  qed
  show ?thesis using Keydown b by (simp add: step_def)
next
  case (Resize width)
  then show ?thesis by (simp add: step_def Let_def core_defs resized_c_def)
next
  case Resize_timer
  have "close_effect (core w) (core (run_listener handleResize (w\<lparr>resize_pending := False\<rparr>)))"
    using core_handleResize [of "w\<lparr>resize_pending := False\<rparr>"] p
    by (simp add: close_effect_def)
  then show ?thesis using Resize_timer by (simp add: step_def close_effect_refl)
next
  case (Scroll y)
  then show ?thesis by (simp add: step_def Let_def core_defs close_effect_def)
next
  case Scroll_handler
  have "core (run_listener handleScroll (w\<lparr>scroll_pending := False\<rparr>)) = core w"
    using core_run_listener [of handleScroll "w\<lparr>scroll_pending := False\<rparr>"]
      core_handleScroll [of "w\<lparr>scroll_pending := False\<rparr>"] by simp
  then show ?thesis using Scroll_handler by (simp add: step_def close_effect_def)
next
  case (Timer k)
  have "core (run_listener (timer_callback a) (w\<lparr>timers := ts\<rparr>)) = core w" for a ts
    using core_run_listener [of "timer_callback a" "w\<lparr>timers := ts\<rparr>"]
      core_timer_callback [of a "w\<lparr>timers := ts\<rparr>"] by simp
  then show ?thesis using Timer by (simp add: step_def close_effect_def)
next
  case (Call m)
  with n have "m \<noteq> M_toggle" "m \<noteq> M_open" by (auto simp: calls_open_def)
  then show ?thesis using Call close_method_body [OF p, of m] by (simp add: step_def)
qed

text \<open>
  So every event either leaves the menu state as it is, or changes it as \<open>close\<close> does,
  or as \<open>open\<close> does.
\<close>

lemma step_effect:
  assumes p: "menu_present w"
  shows "(case ev of
            Resize width \<Rightarrow> core (step ev w) = resized_c width (core w)
          | _ \<Rightarrow> menu_effect (core w) (core (step ev w)))"
proof (cases "calls_open ev")
  case False
  from step_close_effect [OF p False] show ?thesis
    by (cases ev) (auto intro: close_effect_menu)
next
  case True
  then consider "ev = Click_toggle" | "ev = Call M_toggle" | "ev = Call M_open"
    by (auto simp: calls_open_def)
  then show ?thesis
  proof cases
    case 1
    from p obtain t where t: "navToggle w = Some t" by (auto simp: menu_present_def)
    have a: "menu_effect (core w) (core (run_listeners toggle_react w))"
    proof (rule run_listeners_effect [OF _ p])
      fix l h w'
      assume "toggle_react l = Some h" "menu_present w'"
      then show "menu_effect (core w') (core (run_listener h w'))"
        using core_toggle [of w'] by (auto simp: toggle_react_def menu_effect_def split: if_splits)
    qed
    show ?thesis
      using 1 t a close_effect_menu [OF document_click_close [OF p]] by (simp add: step_def)
  next
    case 2
    then show ?thesis using core_toggle [OF p] by (simp add: step_def method_body_def menu_effect_def)
  next
    case 3
    then show ?thesis using core_open_nav [OF p] by (simp add: step_def method_body_def menu_effect_def)
  qed
qed

section \<open>Construction\<close>

text \<open>With the three elements found the constructor initialises and binds its listeners.\<close>

lemma Navigation_new_result:
  assumes "elements_present p"
  shows "\<exists>w. Navigation_new p = Ok w \<and> isOpen w = False
     \<and> list_active w = list_active p \<and> toggle_active w = toggle_active p
     \<and> menu_present w \<and> body w = body p \<and> win w = win p
     \<and> listeners w = listeners p @ On_toggle_click # map On_link_click [0..<length (navLinks p)]
          @ [On_document_click, On_keydown, On_resize, On_scroll, On_touchstart, On_touchmove]
          @ smooth_listeners (navLinks p)"
proof -
  from assms obtain nb t l where e: "navbar p = Some nb" "navToggle p = Some t" "navList p = Some l"
    by (auto simp: elements_present_def)
  show ?thesis using e
    by (auto simp add: Navigation_new_def init_def bindEvents_def preventBodyScroll_def
        initSmoothScroll_def updateActiveLink_def handleResize_def add_listeners_def
        stmt_defs Let_def core_defs)
qed

text \<open>Without one of them it only warns.\<close>

lemma Navigation_new_missing:
  assumes "\<not> elements_present p"
  shows "Navigation_new p
           = Ok (p\<lparr>isOpen := False, lastScrollY := 0,
                   console := console p @ [Warn_elements_not_found]\<rparr>)"
  using assms by (auto simp add: Navigation_new_def elements_present_def console_log_def Let_def)

lemma Navigation_new_menu:
  assumes "menu_present p"
  shows "isOpen (world_of (Navigation_new p)) = False
     \<and> list_active (world_of (Navigation_new p)) = list_active p
     \<and> toggle_active (world_of (Navigation_new p)) = toggle_active p
     \<and> menu_present (world_of (Navigation_new p))"
proof (cases "elements_present p")
  case True
  from Navigation_new_result [OF True] show ?thesis by auto
next
  case False
  from Navigation_new_missing [OF False] assms show ?thesis
    by (simp add: list_active_def toggle_active_def menu_present_def)
qed

text \<open>The toggle button has exactly one listener.\<close>

lemma toggle_registered_once:
  "filter (\<lambda>l. l = On_toggle_click)
     (On_toggle_click # map On_link_click [0..<n]
          @ [On_document_click, On_keydown, On_resize, On_scroll, On_touchstart, On_touchmove]
          @ smooth_listeners links) = [On_toggle_click]"
proof -
  have a: "filter (\<lambda>l. l = On_toggle_click) (map On_link_click xs) = []" for xs
    by (induction xs) auto
  have b: "filter (\<lambda>l. l = On_toggle_click)
             (concat (map (\<lambda>i. (case ln_href (links ! i) of
                          None \<Rightarrow> []
                        | Some href \<Rightarrow>
                            if href \<noteq> [] \<and> starts_with ''#'' href \<and> href \<noteq> ''#''
                            then [On_smooth_link_click i href] else [])) xs)) = []" for xs
    by (induction xs) (auto split: option.splits)
  show ?thesis using a b by (simp add: smooth_listeners_def)
qed

lemma run_listeners_toggle:
  assumes "filter (\<lambda>l. l = On_toggle_click) (listeners w) = [On_toggle_click]"
  shows "run_listeners toggle_react w = run_listener toggle w"
proof -
  have "fold (\<lambda>l w'. (case toggle_react l of None \<Rightarrow> w' | Some h \<Rightarrow> run_listener h w')) ls v
      = fold (\<lambda>l. run_listener toggle) (filter (\<lambda>l. l = On_toggle_click) ls) v" for ls v
    by (induction ls arbitrary: v) (auto simp: toggle_react_def)
  then show ?thesis using assms by (simp add: run_listeners_def)
qed

section \<open>The menu state\<close>

lemma consistent_c_effect: "consistent_c c \<Longrightarrow> menu_effect c c' \<Longrightarrow> consistent_c c'"
  by (cases c) (auto simp: consistent_c_def menu_effect_def closed_c_def opened_c_def)

lemma consistent_c_resized: "consistent_c c \<Longrightarrow> consistent_c (resized_c width c)"
  by (cases c) (auto simp: consistent_c_def resized_c_def)

lemma consistent_step:
  assumes "consistent_c (core w)"
  shows "consistent_c (core (step ev w))"
proof -
  have p: "menu_present w" using assms by (simp add: consistent_c_def core_def)
  show ?thesis
    using step_effect [OF p, of ev] assms consistent_c_effect consistent_c_resized
    by (cases ev) auto
qed

lemma consistent_run:
  "consistent_c (core w) \<Longrightarrow> consistent_c (core (run evs w))"
  unfolding run_def by (induction evs arbitrary: w) (auto simp: consistent_step)

lemma step_not_opening:
  assumes "menu_present w" "\<not> calls_open ev" "isOpen (step ev w)"
  shows "isOpen w"
proof (cases ev)
  case (Resize width)
  with step_close_effect [OF assms(1,2)] assms(3) show ?thesis
    by (cases "core w") (auto simp: core_def resized_c_def)
qed (use step_close_effect [OF assms(1,2)] assms(3) in
      \<open>auto simp: core_def close_effect_def closed_c_def\<close>)

lemma step_not_closing:
  assumes "menu_present w" "\<not> calls_close ev" "isOpen w"
  shows "isOpen (step ev w)"
proof (cases ev)
  case (Resize width)
  then show ?thesis using assms(3) by (simp add: step_def Let_def)
next
  case (Scroll y)
  then show ?thesis using assms(3) by (simp add: step_def Let_def)
next
  case Scroll_handler
  have "core (run_listener handleScroll (w\<lparr>scroll_pending := False\<rparr>)) = core w"
    using core_run_listener [of handleScroll "w\<lparr>scroll_pending := False\<rparr>"]
      core_handleScroll [of "w\<lparr>scroll_pending := False\<rparr>"] by simp
  then show ?thesis using Scroll_handler assms(3) by (auto simp add: step_def core_def)
next
  case (Timer k)
  have "core (run_listener (timer_callback a) (w\<lparr>timers := ts\<rparr>)) = core w" for a ts
    using core_run_listener [of "timer_callback a" "w\<lparr>timers := ts\<rparr>"]
      core_timer_callback [of a "w\<lparr>timers := ts\<rparr>"] by simp
  then show ?thesis using Timer assms(3) by (auto simp add: step_def core_def)
next
  case (Call m)
  show ?thesis
  proof (cases "m = M_open")
    case True
    then show ?thesis using Call core_open_nav [OF assms(1)]
      by (cases "core w") (auto simp add: step_def method_body_def core_def opened_c_def)
  next
    case False
    with Call assms(2) have m: "m \<noteq> M_toggle" "m \<noteq> M_open" "m \<noteq> M_close" "m \<noteq> M_handleResize"
      by (auto simp: calls_close_def)
    have "core (run_listener (method_body m) w) = core w"
      using m core_run_listener [of handleScroll w] core_handleScroll [of w]
        core_run_listener [of updateActiveLink w] core_updateActiveLink [of w]
        core_run_listener [of "scrollToSection href" w for href] core_scrollToSection [of _ w]
        core_run_listener [of animateLinksIn w] core_animateLinksIn [of w]
      by (cases m) (simp_all add: method_body_def)
    then show ?thesis using Call assms(3) by (auto simp add: step_def core_def)
  qed
qed (use assms(2) in \<open>simp_all add: calls_close_def\<close>)

text \<open>
  C9, as the claim states it, fails on two kinds of page. Where the markup already
  carries \<open>active\<close> on the menu list and the toggle button, the constructor sets
  \<open>isOpen\<close> to false and leaves the classes: the component starts closed with both
  marked. Where the toggle button is missing, \<open>open()\<close> marks the menu list and then
  throws on the button before it reaches \<open>this.isOpen = true\<close>.
\<close>

theorem menu_state_consistent_counterexample:
  "\<not> isOpen (world_of (Navigation_new ((sample_page phone)
        \<lparr>navToggle := Some \<lparr>tg_classList = {''nav-toggle'', ''active''}, tg_in_navbar = True\<rparr>,
         navList := Some \<lparr>nl_classList = {''nav-list'', ''active''},
                    nl_items = replicate 3 \<lparr>li_opacity = [], li_transform = [], li_transition = []\<rparr>\<rparr>\<rparr>)))
   \<and> list_active (world_of (Navigation_new ((sample_page phone)
        \<lparr>navToggle := Some \<lparr>tg_classList = {''nav-toggle'', ''active''}, tg_in_navbar = True\<rparr>,
         navList := Some \<lparr>nl_classList = {''nav-list'', ''active''},
                    nl_items = replicate 3 \<lparr>li_opacity = [], li_transform = [], li_transition = []\<rparr>\<rparr>\<rparr>)))
   \<and> toggle_active (world_of (Navigation_new ((sample_page phone)
        \<lparr>navToggle := Some \<lparr>tg_classList = {''nav-toggle'', ''active''}, tg_in_navbar = True\<rparr>,
         navList := Some \<lparr>nl_classList = {''nav-list'', ''active''},
                    nl_items = replicate 3 \<lparr>li_opacity = [], li_transform = [], li_transition = []\<rparr>\<rparr>\<rparr>)))
   \<and> \<not> isOpen (run [Call M_open]
        (world_of (Navigation_new ((sample_page phone)\<lparr>navToggle := None\<rparr>))))
   \<and> list_active (run [Call M_open]
        (world_of (Navigation_new ((sample_page phone)\<lparr>navToggle := None\<rparr>))))
   \<and> uncaught (run [Call M_open]
        (world_of (Navigation_new ((sample_page phone)\<lparr>navToggle := None\<rparr>)))) = [TypeError]"
  by code_simp

text \<open>
  C9, amended. On a page that has the menu list and the toggle button, neither marked
  \<open>active\<close> when the component is constructed, let anything happen: clicks, keys,
  resizes, scrolls, timers running out, direct calls of \<open>toggle\<close>, \<open>open\<close>, \<open>close\<close> and
  the other methods, in any order. In every state reached, \<open>isOpen\<close> is true exactly
  when the menu list carries \<open>active\<close>, and exactly when the toggle button does. From
  every such state \<open>open()\<close> leaves \<open>isOpen\<close> true and both elements marked, and
  \<open>close()\<close> leaves \<open>isOpen\<close> false and both unmarked. No event takes the menu from
  closed to open but those whose handler calls \<open>open\<close> (a click on the toggle button,
  \<open>toggle()\<close> and \<open>open()\<close>), and none takes it from open to closed but those whose
  handler calls \<open>close\<close>.
\<close>

theorem menu_state_consistent:
  assumes "menu_present p" "\<not> list_active p" "\<not> toggle_active p"
  shows "isOpen (run evs (world_of (Navigation_new p)))
           = list_active (run evs (world_of (Navigation_new p)))
       \<and> isOpen (run evs (world_of (Navigation_new p)))
           = toggle_active (run evs (world_of (Navigation_new p)))
       \<and> isOpen (step (Call M_open) (run evs (world_of (Navigation_new p))))
       \<and> list_active (step (Call M_open) (run evs (world_of (Navigation_new p))))
       \<and> toggle_active (step (Call M_open) (run evs (world_of (Navigation_new p))))
       \<and> \<not> isOpen (step (Call M_close) (run evs (world_of (Navigation_new p))))
       \<and> \<not> list_active (step (Call M_close) (run evs (world_of (Navigation_new p))))
       \<and> \<not> toggle_active (step (Call M_close) (run evs (world_of (Navigation_new p))))
       \<and> (isOpen (step ev (run evs (world_of (Navigation_new p))))
            \<and> \<not> isOpen (run evs (world_of (Navigation_new p))) \<longrightarrow> calls_open ev)
       \<and> (\<not> isOpen (step ev (run evs (world_of (Navigation_new p))))
            \<and> isOpen (run evs (world_of (Navigation_new p))) \<longrightarrow> calls_close ev)"
proof -
  let ?v = "run evs (world_of (Navigation_new p))"
  have "consistent_c (core (world_of (Navigation_new p)))"
    using Navigation_new_menu [OF assms(1)] assms(2,3) by (simp add: consistent_c_def core_def)
  then have c: "consistent_c (core ?v)"
    by (rule consistent_run)
  then have pv: "menu_present ?v" by (simp add: consistent_c_def core_def)
  from c have a: "isOpen ?v = list_active ?v \<and> isOpen ?v = toggle_active ?v"
    by (auto simp add: consistent_c_def core_def)
  have "core (step (Call M_open) ?v) = opened_c (core ?v)"
    using core_open_nav [OF pv] by (simp add: step_def method_body_def)
  then have o: "isOpen (step (Call M_open) ?v) \<and> list_active (step (Call M_open) ?v)
      \<and> toggle_active (step (Call M_open) ?v)"
    by (cases "core ?v") (auto simp add: core_def opened_c_def)
  have "core (step (Call M_close) ?v) = closed_c (core ?v)"
    using core_close_nav [OF pv] by (simp add: step_def method_body_def)
  then have cl: "\<not> isOpen (step (Call M_close) ?v) \<and> \<not> list_active (step (Call M_close) ?v)
      \<and> \<not> toggle_active (step (Call M_close) ?v)"
    by (cases "core ?v") (auto simp add: core_def closed_c_def)
  have n: "isOpen (step ev ?v) \<and> \<not> isOpen ?v \<longrightarrow> calls_open ev"
    using step_not_opening [OF pv, of ev] by blast
  have m: "\<not> isOpen (step ev ?v) \<and> isOpen ?v \<longrightarrow> calls_close ev"
    using step_not_closing [OF pv, of ev] by blast
  from a o cl n m show ?thesis by blast
qed

theorem menu_state_consistent_witness:
  "menu_present (sample_page phone)
   \<and> \<not> list_active (sample_page phone) \<and> \<not> toggle_active (sample_page phone)
   \<and> isOpen (run [Click_toggle, Scroll 900, Scroll_handler, Click_link 1, Timer 0, Call M_open,
                  Resize 1180, Resize_timer, Keydown ''Escape'']
              (world_of (Navigation_new (sample_page phone))))
       = list_active (run [Click_toggle, Scroll 900, Scroll_handler, Click_link 1, Timer 0,
                  Call M_open, Resize 1180, Resize_timer, Keydown ''Escape'']
              (world_of (Navigation_new (sample_page phone))))
   \<and> toggle_active (step (Call M_open)
        (run [Click_toggle, Scroll 900, Scroll_handler, Click_link 1, Timer 0, Call M_open,
                  Resize 1180, Resize_timer, Keydown ''Escape'']
              (world_of (Navigation_new (sample_page phone)))))
   \<and> \<not> list_active (step (Call M_close)
        (run [Click_toggle, Scroll 900, Scroll_handler, Click_link 1, Timer 0, Call M_open,
                  Resize 1180, Resize_timer, Keydown ''Escape'']
              (world_of (Navigation_new (sample_page phone)))))"
proof -
  have h: "menu_present (sample_page phone)" "\<not> list_active (sample_page phone)"
    "\<not> toggle_active (sample_page phone)"
    by (simp_all add: sample_page_def menu_present_def list_active_def toggle_active_def)
  from menu_state_consistent [OF h] h show ?thesis by blast
qed

section \<open>The body-scroll lock\<close>

text \<open>The listeners stay as the constructor bound them.\<close>

lemma bound_c_effect: "bound_c ls0 c \<Longrightarrow> menu_effect c c' \<Longrightarrow> bound_c ls0 c'"
  by (cases c) (auto simp: bound_c_def menu_effect_def closed_c_def opened_c_def)

lemma bound_c_resized: "bound_c ls0 c \<Longrightarrow> bound_c ls0 (resized_c width c)"
  by (cases c) (auto simp: bound_c_def resized_c_def)

lemma bound_step:
  assumes "bound_c ls0 (core w)"
  shows "bound_c ls0 (core (step ev w))"
proof -
  have p: "menu_present w" using assms by (simp add: bound_c_def core_def)
  show ?thesis
    using step_effect [OF p, of ev] assms bound_c_effect bound_c_resized
    by (cases ev) auto
qed

lemma bound_run: "bound_c ls0 (core w) \<Longrightarrow> bound_c ls0 (core (run evs w))"
  unfolding run_def by (induction evs arbitrary: w) (auto simp: bound_step)

text \<open>
  The lock follows the menu state through every event but a resize across the mobile
  breakpoint with the menu open.
\<close>

lemma locked_c_effect: "locked_c c \<Longrightarrow> menu_effect c c' \<Longrightarrow> locked_c c'"
  by (cases c) (auto simp: locked_c_def menu_effect_def closed_c_def opened_c_def)

lemma locked_step:
  assumes "locked_c (core w)" "\<not> crossing_while_open w ev"
  shows "locked_c (core (step ev w))"
proof -
  have p: "menu_present w" using assms by (simp add: locked_c_def core_def)
  show ?thesis
  proof (cases ev)
    case (Resize width)
    with assms(2)
    have "\<not> (isOpen w \<and> (width \<le> breakpoints_mobile) \<noteq> (innerWidth (win w) \<le> breakpoints_mobile))"
      by (simp add: crossing_while_open_def breakpoints_mobile_def)
    then show ?thesis
      using step_effect [OF p, of ev] Resize assms(1)
      by (auto simp add: core_def locked_c_def resized_c_def)
  qed (use step_effect [OF p, of ev] assms(1) locked_c_effect [of "core w"] in auto)
qed

lemma locked_run:
  "locked_c (core w) \<Longrightarrow> steady evs w \<Longrightarrow> locked_c (core (run evs w))"
  unfolding run_def by (induction evs arbitrary: w) (auto simp: locked_step)

text \<open>
  C1, as the claim states it, fails when a resize crosses the mobile breakpoint while
  the menu is open. Opened on a wide viewport and then narrowed, the menu is open on a
  mobile viewport with no lock: only \<open>open\<close> applies the lock, and only when the viewport
  is mobile as it runs; nothing looks at the lock when the width changes. Opened on a
  phone and then widened (a rotation), the menu is closed by the resize handler with the
  body left fixed, and a further click on the toggle button opens it on the wide
  viewport with the body still fixed. This second failure is a defect of the code
  rather than its design: \<open>handleResize\<close> calls \<open>close\<close> exactly when the viewport is
  no longer mobile, and \<open>close\<close> releases the lock only when it is.
\<close>

theorem toggle_lock_counterexample:
  "isOpen (run [Click_toggle, Resize 390, Resize_timer]
               (world_of (Navigation_new (sample_page tablet_landscape))))
   \<and> is_mobile (run [Click_toggle, Resize 390, Resize_timer]
               (world_of (Navigation_new (sample_page tablet_landscape))))
   \<and> \<not> scroll_locked (run [Click_toggle, Resize 390, Resize_timer]
               (world_of (Navigation_new (sample_page tablet_landscape))))
   \<and> \<not> isOpen (run [Click_toggle, Resize 1180, Resize_timer]
               (world_of (Navigation_new (sample_page phone))))
   \<and> scroll_locked (run [Click_toggle, Resize 1180, Resize_timer]
               (world_of (Navigation_new (sample_page phone))))
   \<and> \<not> is_mobile (run [Click_toggle, Resize 1180, Resize_timer, Click_toggle]
               (world_of (Navigation_new (sample_page phone))))
   \<and> scroll_locked (run [Click_toggle, Resize 1180, Resize_timer, Click_toggle]
               (world_of (Navigation_new (sample_page phone))))"
  by code_simp

text \<open>
  C1, amended. The page has the navbar, the toggle button and the menu list, and the
  toggle button has no click listener of the component yet; construct the component
  and let anything happen, in any order. Then in every state reached a click on the
  toggle button flips \<open>isOpen\<close>. If moreover the body is not locked before the
  construction and no resize takes the viewport across the mobile breakpoint while the
  menu is open (resizes with the menu closed may cross it), the body-scroll lock is in
  effect exactly when the menu is open and the viewport is mobile. And from any state
  reached in which lock and menu agree in this way, they agree again after every
  event that is not such a resize. A resize by itself changes neither \<open>isOpen\<close> nor
  the lock: the lock is written by \<open>open\<close> and \<open>close\<close> only. What the resize handler
  makes of the lock after a resize across the breakpoint with the menu open is left out.
\<close>

theorem toggle_lock:
  assumes "elements_present p" "On_toggle_click \<notin> set (listeners p)"
  shows "isOpen (step Click_toggle (run evs (world_of (Navigation_new p))))
           = (\<not> isOpen (run evs (world_of (Navigation_new p))))
       \<and> (\<not> scroll_locked p \<and> steady evs (world_of (Navigation_new p)) \<longrightarrow>
            scroll_locked (run evs (world_of (Navigation_new p)))
              = (isOpen (run evs (world_of (Navigation_new p)))
                 \<and> is_mobile (run evs (world_of (Navigation_new p)))))
       \<and> (scroll_locked (run evs (world_of (Navigation_new p)))
              = (isOpen (run evs (world_of (Navigation_new p)))
                 \<and> is_mobile (run evs (world_of (Navigation_new p))))
            \<and> \<not> crossing_while_open (run evs (world_of (Navigation_new p))) ev \<longrightarrow>
            scroll_locked (step ev (run evs (world_of (Navigation_new p))))
              = (isOpen (step ev (run evs (world_of (Navigation_new p))))
                 \<and> is_mobile (step ev (run evs (world_of (Navigation_new p))))))
       \<and> scroll_locked (step (Resize width) (run evs (world_of (Navigation_new p))))
           = scroll_locked (run evs (world_of (Navigation_new p)))
       \<and> isOpen (step (Resize width) (run evs (world_of (Navigation_new p))))
           = isOpen (run evs (world_of (Navigation_new p)))"
proof -
  from Navigation_new_result [OF assms(1)] obtain w where
    w: "Navigation_new p = Ok w" "isOpen w = False" "menu_present w" "body w = body p"
       "win w = win p"
       "listeners w = listeners p @ On_toggle_click # map On_link_click [0..<length (navLinks p)]
          @ [On_document_click, On_keydown, On_resize, On_scroll, On_touchstart, On_touchmove]
          @ smooth_listeners (navLinks p)"
    by blast
  let ?v = "run evs w"
  have "bound_c (listeners w) (core w)"
    using w by (simp add: bound_c_def core_def)
  then have "bound_c (listeners w) (core ?v)" by (rule bound_run)
  then have pv: "menu_present ?v" and lv: "listeners ?v = listeners w"
    by (auto simp: bound_c_def core_def)
  have "filter (\<lambda>l. l = On_toggle_click) (listeners p) = []"
    using assms(2) by (auto simp add: filter_empty_conv)
  then have once: "filter (\<lambda>l. l = On_toggle_click) (listeners ?v) = [On_toggle_click]"
    using lv w(6) toggle_registered_once [of "length (navLinks p)" "navLinks p"]
    by simp
  have mem: "On_toggle_click \<in> set (listeners ?v)"
  proof -
    have "On_toggle_click \<in> set (filter (\<lambda>l. l = On_toggle_click) (listeners ?v))"
      using once by simp
    then show ?thesis by simp
  qed
  from pv obtain t where t: "navToggle ?v = Some t" by (auto simp: menu_present_def)
  have "step Click_toggle ?v = run_listener toggle ?v"
    using t mem run_listeners_toggle [OF once] by (simp add: step_def)
  then have flip: "isOpen (step Click_toggle ?v) = (\<not> isOpen ?v)"
    using core_toggle [OF pv] by (auto simp: core_def closed_c_def opened_c_def split: if_splits)
  have run_ok: "\<not> scroll_locked p \<and> steady evs w \<longrightarrow>
      scroll_locked ?v = (isOpen ?v \<and> is_mobile ?v)"
  proof
    assume a: "\<not> scroll_locked p \<and> steady evs w"
    then have "locked_c (core w)"
      using w by (simp add: locked_c_def core_def scroll_locked_def)
    with a have "locked_c (core ?v)" by (intro locked_run) simp_all
    then show "scroll_locked ?v = (isOpen ?v \<and> is_mobile ?v)"
      by (simp add: locked_c_def core_def breakpoints_mobile_def)
  qed
  have keep: "scroll_locked ?v = (isOpen ?v \<and> is_mobile ?v) \<and> \<not> crossing_while_open ?v ev \<longrightarrow>
      scroll_locked (step ev ?v) = (isOpen (step ev ?v) \<and> is_mobile (step ev ?v))"
  proof
    assume a: "scroll_locked ?v = (isOpen ?v \<and> is_mobile ?v) \<and> \<not> crossing_while_open ?v ev"
    with pv have "locked_c (core ?v)"
      by (simp add: locked_c_def core_def breakpoints_mobile_def)
    with a have "locked_c (core (step ev ?v))" by (intro locked_step) simp_all
    then show "scroll_locked (step ev ?v) = (isOpen (step ev ?v) \<and> is_mobile (step ev ?v))"
      by (simp add: locked_c_def core_def breakpoints_mobile_def)
  qed
  have rs: "scroll_locked (step (Resize width) ?v) = scroll_locked ?v"
    by (simp add: step_def Let_def scroll_locked_def)
  have ro: "isOpen (step (Resize width) ?v) = isOpen ?v"
    by (simp add: step_def Let_def)
  from flip run_ok keep rs ro show ?thesis unfolding w(1) world_of.simps by (intro conjI)
qed

theorem toggle_lock_witness:
  "elements_present (sample_page phone)
   \<and> On_toggle_click \<notin> set (listeners (sample_page phone))
   \<and> \<not> scroll_locked (sample_page phone)
   \<and> steady [Click_toggle, Resize 430, Resize_timer, Click_toggle, Resize 1180, Resize_timer,
              Click_toggle, Click_toggle, Resize 390, Resize_timer, Click_toggle]
       (world_of (Navigation_new (sample_page phone)))
   \<and> \<not> crossing_while_open
         (run [Click_toggle, Resize 430, Resize_timer, Click_toggle, Resize 1180, Resize_timer,
               Click_toggle, Click_toggle, Resize 390, Resize_timer, Click_toggle]
            (world_of (Navigation_new (sample_page phone)))) (Keydown ''Escape'')
   \<and> isOpen (step Click_toggle
         (run [Click_toggle, Resize 430, Resize_timer, Click_toggle, Resize 1180, Resize_timer,
               Click_toggle, Click_toggle, Resize 390, Resize_timer, Click_toggle]
            (world_of (Navigation_new (sample_page phone)))))
       = (\<not> isOpen
         (run [Click_toggle, Resize 430, Resize_timer, Click_toggle, Resize 1180, Resize_timer,
               Click_toggle, Click_toggle, Resize 390, Resize_timer, Click_toggle]
            (world_of (Navigation_new (sample_page phone)))))
   \<and> scroll_locked
         (run [Click_toggle, Resize 430, Resize_timer, Click_toggle, Resize 1180, Resize_timer,
               Click_toggle, Click_toggle, Resize 390, Resize_timer, Click_toggle]
            (world_of (Navigation_new (sample_page phone))))
       = (isOpen
         (run [Click_toggle, Resize 430, Resize_timer, Click_toggle, Resize 1180, Resize_timer,
               Click_toggle, Click_toggle, Resize 390, Resize_timer, Click_toggle]
            (world_of (Navigation_new (sample_page phone))))
          \<and> is_mobile
         (run [Click_toggle, Resize 430, Resize_timer, Click_toggle, Resize 1180, Resize_timer,
               Click_toggle, Click_toggle, Resize 390, Resize_timer, Click_toggle]
            (world_of (Navigation_new (sample_page phone)))))
   \<and> scroll_locked (step (Keydown ''Escape'')
         (run [Click_toggle, Resize 430, Resize_timer, Click_toggle, Resize 1180, Resize_timer,
               Click_toggle, Click_toggle, Resize 390, Resize_timer, Click_toggle]
            (world_of (Navigation_new (sample_page phone)))))
       = (isOpen (step (Keydown ''Escape'')
         (run [Click_toggle, Resize 430, Resize_timer, Click_toggle, Resize 1180, Resize_timer,
               Click_toggle, Click_toggle, Resize 390, Resize_timer, Click_toggle]
            (world_of (Navigation_new (sample_page phone)))))
          \<and> is_mobile (step (Keydown ''Escape'')
         (run [Click_toggle, Resize 430, Resize_timer, Click_toggle, Resize 1180, Resize_timer,
               Click_toggle, Click_toggle, Resize 390, Resize_timer, Click_toggle]
            (world_of (Navigation_new (sample_page phone))))))"
proof -
  let ?evs = "[Click_toggle, Resize 430, Resize_timer, Click_toggle, Resize 1180, Resize_timer,
               Click_toggle, Click_toggle, Resize 390, Resize_timer, Click_toggle]"
  have h: "elements_present (sample_page phone)"
    "On_toggle_click \<notin> set (listeners (sample_page phone))"
    by (simp_all add: sample_page_def elements_present_def)
  have u: "\<not> scroll_locked (sample_page phone)"
    by (simp add: sample_page_def scroll_locked_def)
  have s: "steady ?evs (world_of (Navigation_new (sample_page phone)))" by code_simp
  have n: "\<not> crossing_while_open (run ?evs (world_of (Navigation_new (sample_page phone))))
             (Keydown ''Escape'')"
    by (simp add: crossing_while_open_def)
  note T = toggle_lock [OF h, of ?evs "Keydown ''Escape''"]
  from T have a: "isOpen (step Click_toggle (run ?evs (world_of (Navigation_new (sample_page phone)))))
       = (\<not> isOpen (run ?evs (world_of (Navigation_new (sample_page phone)))))"
    by (rule conjunct1)
  from T u s have b: "scroll_locked (run ?evs (world_of (Navigation_new (sample_page phone))))
       = (isOpen (run ?evs (world_of (Navigation_new (sample_page phone))))
          \<and> is_mobile (run ?evs (world_of (Navigation_new (sample_page phone)))))"
    by blast
  from T b n have c: "scroll_locked (step (Keydown ''Escape'')
         (run ?evs (world_of (Navigation_new (sample_page phone)))))
       = (isOpen (step (Keydown ''Escape'')
         (run ?evs (world_of (Navigation_new (sample_page phone)))))
          \<and> is_mobile (step (Keydown ''Escape'')
         (run ?evs (world_of (Navigation_new (sample_page phone))))))"
    by blast
  from h u s n a b c show ?thesis by (intro conjI)
qed

section \<open>The scroll offset across open and close\<close>

text \<open>
  C2, as the claim states it, fails for an offset that is not a whole number of pixels
  (offsets are fractional on screens with a fractional pixel ratio): \<open>parseInt\<close> reads
  \<open>-100.5px\<close> as \<open>-100\<close>.
\<close>

theorem scroll_restored_counterexample:
  "scrollY (win (run [Click_toggle, Click_toggle]
      (world_of (Navigation_new (sample_page (phone\<lparr>scrollY := 201 / 2\<rparr>)))))) = 100
   \<and> scrollY (win (run [Click_toggle, Click_toggle]
      (world_of (Navigation_new (sample_page (phone\<lparr>scrollY := 201 / 2\<rparr>)))))) \<noteq> 201 / 2"
  by code_simp

text \<open>
  C2, amended. \<open>open\<close> runs on a mobile viewport at scroll offset \<open>y\<close> (not negative, in
  the range of plain decimal notation); later \<open>close\<close> runs on a mobile viewport, the
  inline style of the body being as \<open>open\<close> left it. Then \<open>close\<close> leaves the window at
  the whole part of \<open>y\<close>: at \<open>y\<close> itself when \<open>y\<close> is a whole number of pixels.
\<close>

theorem scroll_restored:
  assumes "navList w \<noteq> None" "navToggle w \<noteq> None" "is_mobile w"
      and "plain_decimal (scrollY (win w))"
      and "navList v \<noteq> None" "navToggle v \<noteq> None" "is_mobile v"
      and "body v = body (world_of (open_nav w))"
  shows "scrollY (win (world_of (close_nav v))) = of_int \<lfloor>scrollY (win w)\<rfloor>"
proof -
  have y: "0 \<le> scrollY (win w)"
    using assms(4) by (auto simp: plain_decimal_def intro: order_trans [of 0 "1 / 10 ^ 6"])
  from assms obtain l t l' t' where e: "navList w = Some l" "navToggle w = Some t"
     "navList v = Some l'" "navToggle v = Some t'" by auto
  from open_nav_result [OF e(1,2)] assms(3)
  have top: "bs_top (body (world_of (open_nav w)))
               = ''-'' @ number_to_string (scrollY (win w)) @ ''px''"
    by auto
  from close_nav_result [OF e(3,4)] assms(7)
  have "scrollY (win (world_of (close_nav v)))
       = scrollY (scrollTo (map_option (\<lambda>n. n * - 1)
                 (parseInt (if bs_top (body v) = [] then ''0'' else bs_top (body v)))) (win v))"
    by auto
  also have "\<dots> = of_int (max 0 \<lfloor>scrollY (win w)\<rfloor>)"
    using top assms(8) parseInt_top [OF y] by (simp add: scrollTo_def)
  also have "\<dots> = of_int \<lfloor>scrollY (win w)\<rfloor>"
    using y by simp
  finally show ?thesis .
qed

theorem scroll_restored_witness:
  "is_mobile (sample_page (phone\<lparr>scrollY := 1234\<rparr>))
   \<and> plain_decimal (scrollY (win (sample_page (phone\<lparr>scrollY := 1234\<rparr>))))
   \<and> scrollY (win (world_of (close_nav (world_of (open_nav
        (sample_page (phone\<lparr>scrollY := 1234\<rparr>))))))) = 1234"
proof -
  let ?w = "sample_page (phone\<lparr>scrollY := 1234\<rparr>)"
  let ?v = "world_of (open_nav ?w)"
  have w: "navList ?w \<noteq> None" "navToggle ?w \<noteq> None" "is_mobile ?w"
    "plain_decimal (scrollY (win ?w))"
    by (simp_all add: sample_page_def phone_def plain_decimal_def)
  obtain l t where lt: "navList ?w = Some l" "navToggle ?w = Some t"
    using w(1,2) by auto
  from open_nav_result [OF lt]
  have v: "navList ?v \<noteq> None" "navToggle ?v \<noteq> None" "is_mobile ?v"
    by (auto simp: sample_page_def phone_def)
  have "scrollY (win (world_of (close_nav ?v))) = of_int \<lfloor>scrollY (win ?w)\<rfloor>"
    using scroll_restored [OF w v] by simp
  then show ?thesis using w by (simp add: sample_page_def)
qed

section \<open>The active link\<close>

lemma scan_sections_last:
  "scan_sections h y ss current =
     (if filter (in_section h y) ss = [] then current
      else sc_id (last (filter (in_section h y) ss)))"
  by (induction ss arbitrary: current) auto

lemma mark_link_active:
  "(''active'' \<in> ln_classList (mark_link current l)) = (ln_href l = Some (''#'' @ current))"
  by (auto simp: mark_link_def Let_def)

text \<open>
  C4, as the claim states it, promises exactly one active link after every update. On
  the sample page scrolled into the section \<open>proyectos\<close>, which has no link in the menu,
  no link is active.
\<close>

theorem active_link_counterexample:
  "current_section (world_of (Navigation_new (sample_page (phone\<lparr>scrollY := 1700\<rparr>))))
     = ''proyectos''
   \<and> filter (\<lambda>l. ''active'' \<in> ln_classList l)
       (navLinks (world_of (updateActiveLink
          (world_of (Navigation_new (sample_page (phone\<lparr>scrollY := 1700\<rparr>))))))) = []"
  by code_simp

text \<open>
  C4, amended. With the navbar present, the current section is: none when the scroll
  offset is below 100 or in no section's band
  \<open>[offsetTop - navbarHeight - 50, offsetTop - navbarHeight - 50 + offsetHeight)\<close>,
  otherwise the last section in document order whose band holds the offset. After the
  update a link carries \<open>active\<close> exactly when its \<open>href\<close> is \<open>#\<close> followed by the current
  section's identifier (\<open>#\<close> alone when there is none); so there are as many active links
  as links with that \<open>href\<close>, one when the menu has one such link.
\<close>

theorem active_link:
  assumes "navbar w = Some nb"
  shows "in_section (nb_offsetHeight nb) y s
           = (of_int (sc_offsetTop s - nb_offsetHeight nb - 50) \<le> y
              \<and> y < of_int (sc_offsetTop s - nb_offsetHeight nb - 50 + sc_offsetHeight s))
     \<and> current_section w =
       (if scrollY (win w) < 100
           \<or> filter (in_section (nb_offsetHeight nb) (scrollY (win w))) (sections w) = []
        then []
        else sc_id (last (filter (in_section (nb_offsetHeight nb) (scrollY (win w))) (sections w))))
     \<and> (\<exists>w'. updateActiveLink w = Ok w'
          \<and> map (\<lambda>l. ''active'' \<in> ln_classList l) (navLinks w')
              = map (\<lambda>l. ln_href l = Some (''#'' @ current_section w)) (navLinks w)
          \<and> length (filter (\<lambda>l. ''active'' \<in> ln_classList l) (navLinks w'))
              = length (filter (\<lambda>l. ln_href l = Some (''#'' @ current_section w)) (navLinks w)))"
proof -
  have cur: "current_section w =
       (if scrollY (win w) < 100
           \<or> filter (in_section (nb_offsetHeight nb) (scrollY (win w))) (sections w) = []
        then []
        else sc_id (last (filter (in_section (nb_offsetHeight nb) (scrollY (win w))) (sections w))))"
    using assms by (simp add: current_section_def Let_def scan_sections_last)
  have m: "map (\<lambda>l. ''active'' \<in> ln_classList l) (map (mark_link c) ls)
              = map (\<lambda>l. ln_href l = Some (''#'' @ c)) ls" for c ls
    by (simp add: mark_link_active comp_def)
  have f: "length (filter (\<lambda>l. ''active'' \<in> ln_classList l) (map (mark_link c) ls))
              = length (filter (\<lambda>l. ln_href l = Some (''#'' @ c)) ls)" for c ls
    by (induction ls) (simp_all add: mark_link_active)
  have i: "in_section (nb_offsetHeight nb) y s
           = (of_int (sc_offsetTop s - nb_offsetHeight nb - 50) \<le> y
              \<and> y < of_int (sc_offsetTop s - nb_offsetHeight nb - 50 + sc_offsetHeight s))"
    by (simp add: in_section_def Let_def)
  show ?thesis
    using cur m f i assms by (simp add: updateActiveLink_def)
qed

theorem active_link_witness:
  "navbar (sample_page (phone\<lparr>scrollY := 800\<rparr>)) = Some \<lparr>nb_offsetHeight = 70, nb_transform = []\<rparr>
   \<and> current_section (sample_page (phone\<lparr>scrollY := 800\<rparr>)) = ''servicios''
   \<and> (\<exists>w'. updateActiveLink (sample_page (phone\<lparr>scrollY := 800\<rparr>)) = Ok w'
        \<and> map (\<lambda>l. ''active'' \<in> ln_classList l) (navLinks w') = [False, True, False])"
proof -
  let ?w = "sample_page (phone\<lparr>scrollY := 800\<rparr>)"
  have n: "navbar ?w = Some \<lparr>nb_offsetHeight = 70, nb_transform = []\<rparr>"
    by (simp add: sample_page_def)
  have c: "current_section ?w = ''servicios''"
    by code_simp
  from active_link [OF n, of 800 "\<lparr>sc_id = ''servicios'', sc_offsetTop = 700, sc_offsetHeight = 900\<rparr>"]
  obtain w' where
    u: "updateActiveLink ?w = Ok w'"
    and m: "map (\<lambda>l. ''active'' \<in> ln_classList l) (navLinks w')
       = map (\<lambda>l. ln_href l = Some (''#'' @ current_section ?w)) (navLinks ?w)"
    by blast
  have "map (\<lambda>l. ''active'' \<in> ln_classList l) (navLinks w') = [False, True, False]"
    using m unfolding c by (simp add: sample_page_def)
  with u have ex: "\<exists>w'. updateActiveLink ?w = Ok w'
     \<and> map (\<lambda>l. ''active'' \<in> ln_classList l) (navLinks w') = [False, True, False]"
    by (intro exI [of _ w'] conjI)
  show ?thesis by (intro conjI) (rule n, rule c, rule ex)
qed

section \<open>Missing elements\<close>

lemma step_unbound:
  assumes "listeners w = []" "timers w = []" "\<not> resize_pending w" "\<not> scroll_pending w"
    and "\<not> is_method_call ev"
  shows "step ev w = w\<lparr>win := env_window ev (win w)\<rparr>"
  using assms
  by (cases ev)
     (simp_all add: step_def run_listeners_def env_window_def is_method_call_def Let_def
        split: option.splits)

lemma run_unbound:
  assumes "listeners w = []" "timers w = []" "\<not> resize_pending w" "\<not> scroll_pending w"
    and "list_all (\<lambda>ev. \<not> is_method_call ev) evs"
  shows "run evs w = w\<lparr>win := fold env_window evs (win w)\<rparr>"
  using assms
proof (induction evs arbitrary: w)
  case Nil
  show ?case by (simp add: run_def)
next
  case (Cons ev evs)
  have s: "step ev w = w\<lparr>win := env_window ev (win w)\<rparr>"
    using Cons.prems by (simp add: step_unbound)
  have "run evs (w\<lparr>win := env_window ev (win w)\<rparr>)
      = (w\<lparr>win := env_window ev (win w)\<rparr>)\<lparr>win := fold env_window evs (env_window ev (win w))\<rparr>"
    using Cons.IH [of "w\<lparr>win := env_window ev (win w)\<rparr>"] Cons.prems by simp
  then show ?case using s by (simp add: run_def)
qed

text \<open>
  C5, as the claim states it, makes every later operation on the component a no-op.
  The methods of the object are not guarded: constructed on a page without a navbar,
  \<open>toggle()\<close> opens the menu; constructed on a page without the menu list, it throws.
\<close>

theorem missing_elements_counterexample:
  "\<not> isOpen (world_of (Navigation_new ((sample_page phone)\<lparr>navbar := None\<rparr>)))
   \<and> isOpen (step (Call M_toggle)
       (world_of (Navigation_new ((sample_page phone)\<lparr>navbar := None\<rparr>))))
   \<and> scroll_locked (step (Call M_toggle)
       (world_of (Navigation_new ((sample_page phone)\<lparr>navbar := None\<rparr>))))
   \<and> uncaught (step (Call M_toggle)
       (world_of (Navigation_new ((sample_page phone)\<lparr>navList := None\<rparr>)))) = [TypeError]"
  by code_simp

text \<open>
  C5, amended. On a fresh page that lacks the navbar, the toggle button or the menu
  list, the constructor sets its two fields, logs the warning and does nothing else: no
  listener is bound. From then on no event of the page (a click anywhere, a key, a
  resize, a scroll, a timer) changes anything but the window's own width and scroll
  offset: the component's state, the document and the list of uncaught errors stay as
  they are.
\<close>

theorem missing_elements:
  assumes "\<not> elements_present p" "fresh_page p" "list_all (\<lambda>ev. \<not> is_method_call ev) evs"
  shows "Navigation_new p
           = Ok (p\<lparr>isOpen := False, lastScrollY := 0,
                   console := console p @ [Warn_elements_not_found]\<rparr>)
       \<and> run evs (world_of (Navigation_new p))
           = (world_of (Navigation_new p))
               \<lparr>win := fold env_window evs (win (world_of (Navigation_new p)))\<rparr>"
proof -
  have n: "Navigation_new p
           = Ok (p\<lparr>isOpen := False, lastScrollY := 0,
                   console := console p @ [Warn_elements_not_found]\<rparr>)"
    using assms(1) by (rule Navigation_new_missing)
  let ?w = "p\<lparr>isOpen := False, lastScrollY := 0, console := console p @ [Warn_elements_not_found]\<rparr>"
  have "run evs ?w = ?w\<lparr>win := fold env_window evs (win ?w)\<rparr>"
    using assms(2,3) by (intro run_unbound) (simp_all add: fresh_page_def)
  then show ?thesis using n by simp
qed

theorem missing_elements_witness:
  "\<not> elements_present ((sample_page phone)\<lparr>navToggle := None\<rparr>)
   \<and> fresh_page ((sample_page phone)\<lparr>navToggle := None\<rparr>)
   \<and> console (world_of (Navigation_new ((sample_page phone)\<lparr>navToggle := None\<rparr>)))
       = [Warn_elements_not_found]
   \<and> isOpen (run [Click_toggle, Click_link 1, Keydown ''Escape'', Resize 1180, Resize_timer,
                  Scroll 900, Scroll_handler, Click_elsewhere False, Timer 0]
        (world_of (Navigation_new ((sample_page phone)\<lparr>navToggle := None\<rparr>)))) = False
   \<and> listeners (run [Click_toggle, Click_link 1, Keydown ''Escape'', Resize 1180, Resize_timer,
                  Scroll 900, Scroll_handler, Click_elsewhere False, Timer 0]
        (world_of (Navigation_new ((sample_page phone)\<lparr>navToggle := None\<rparr>)))) = []"
proof -
  let ?p = "(sample_page phone)\<lparr>navToggle := None\<rparr>"
  let ?evs = "[Click_toggle, Click_link 1, Keydown ''Escape'', Resize 1180, Resize_timer,
                  Scroll 900, Scroll_handler, Click_elsewhere False, Timer 0]"
  have h: "\<not> elements_present ?p" "fresh_page ?p"
    by (simp_all add: sample_page_def elements_present_def fresh_page_def)
  have e: "list_all (\<lambda>ev. \<not> is_method_call ev) ?evs"
    by (simp add: is_method_call_def)
  from missing_elements [OF h e]
  have a: "Navigation_new ?p
           = Ok (?p\<lparr>isOpen := False, lastScrollY := 0,
                   console := console ?p @ [Warn_elements_not_found]\<rparr>)"
    and b: "run ?evs (world_of (Navigation_new ?p))
           = (world_of (Navigation_new ?p))
               \<lparr>win := fold env_window ?evs (win (world_of (Navigation_new ?p)))\<rparr>"
    by blast+
  have c: "isOpen (world_of (Navigation_new ?p)) = False"
    "listeners (world_of (Navigation_new ?p)) = []"
    "console (world_of (Navigation_new ?p)) = [Warn_elements_not_found]"
    unfolding a by (simp_all add: sample_page_def)
  have r1: "isOpen (run ?evs (world_of (Navigation_new ?p))) = False"
    unfolding b using c(1) by simp
  have r2: "listeners (run ?evs (world_of (Navigation_new ?p))) = []"
    unfolding b using c(2) by simp
  show ?thesis by (intro conjI) (rule h(1), rule h(2), rule c(3), rule r1, rule r2)
qed

end
